theory Spec2Isabelle
  imports Main "HOL-Library.Char_ord" "HOL-Library.List_Lexorder"
begin

section \<open>Strings\<close>

text \<open>
  A Python \<open>str\<close> is modelled as a \<open>string\<close>, one \<open>char\<close> per code point, which covers
  the code points below 256 (ASCII and Latin-1). The character classes and case mappings
  below are Python's, restricted to that range.
\<close>

definition code :: "char \<Rightarrow> nat" where
  "code c = of_char c"

text \<open>\<open>str.lower()\<close>, one character: A-Z and the Latin-1 capitals (U+00C0..U+00DE without
  the multiplication sign U+00D7) move up by 32.\<close>

definition lower_chr :: "char \<Rightarrow> char" where
  "lower_chr c =
     (if (65 \<le> code c \<and> code c \<le> 90) \<or> (192 \<le> code c \<and> code c \<le> 222 \<and> code c \<noteq> 215)
      then char_of (code c + 32) else c)"

definition lower :: "string \<Rightarrow> string" where
  "lower s = map lower_chr s"

text \<open>\<open>s.startswith(p)\<close> and the substring test \<open>k in t\<close>.\<close>

fun startswith :: "string \<Rightarrow> string \<Rightarrow> bool" where
  "startswith s [] = True"
| "startswith [] (p # ps) = False"
| "startswith (c # cs) (p # ps) = (c = p \<and> startswith cs ps)"

fun str_in :: "string \<Rightarrow> string \<Rightarrow> bool" where
  "str_in k [] = (k = [])"
| "str_in k (c # cs) = (startswith (c # cs) k \<or> str_in k cs)"

section \<open>Regular expressions\<close>

text \<open>
  Python's \<open>re\<close> is a backtracking matcher. \<open>rmatch r p\<close> lists every position at which
  a match of \<open>r\<close> started at \<open>p\<close> can end, in the order in which backtracking tries them,
  so the head of the list is the match that \<open>re\<close> reports. A position is the character
  before it (\<open>None\<close> at the start of the string) and the text that remains.

  \<open>Bol\<close> and \<open>Eol\<close> are \<open>^\<close> and \<open>$\<close> under \<open>re.MULTILINE\<close>; \<open>Star\<close> is the greedy
  \<open>*\<close>, \<open>StarLazy\<close> is \<open>*?\<close>, \<open>NegLook\<close> is \<open>(?!...)\<close>. The repetitions only follow
  an iteration that consumed text, which every repeated expression of this program does.
\<close>

type_synonym pos = "char option \<times> string"

datatype regex =
    Eps
  | Chr "char \<Rightarrow> bool"
  | Bol
  | Eol
  | Seq regex regex
  | Star regex
  | StarLazy regex
  | NegLook regex

definition newline :: char where
  "newline = CHR 0x0A"

definition advances :: "pos \<Rightarrow> pos \<Rightarrow> bool" where
  "advances p q = (length (snd q) < length (snd p))"

primrec star_greedy :: "(pos \<Rightarrow> pos list) \<Rightarrow> string \<Rightarrow> pos \<Rightarrow> pos list" where
  "star_greedy f [] p = [p]"
| "star_greedy f (x # fuel) p =
     concat (map (star_greedy f fuel) (filter (advances p) (f p))) @ [p]"

primrec star_lazy :: "(pos \<Rightarrow> pos list) \<Rightarrow> string \<Rightarrow> pos \<Rightarrow> pos list" where
  "star_lazy f [] p = [p]"
| "star_lazy f (x # fuel) p =
     p # concat (map (star_lazy f fuel) (filter (advances p) (f p)))"

primrec rmatch :: "regex \<Rightarrow> pos \<Rightarrow> pos list" where
  "rmatch Eps p = [p]"
| "rmatch (Chr P) p = (case snd p of [] \<Rightarrow> [] | c # cs \<Rightarrow> if P c then [(Some c, cs)] else [])"
| "rmatch Bol p = (if fst p = None \<or> fst p = Some newline then [p] else [])"
| "rmatch Eol p = (case snd p of [] \<Rightarrow> [p] | c # cs \<Rightarrow> if c = newline then [p] else [])"
| "rmatch (Seq a b) p = concat (map (rmatch b) (rmatch a p))"
| "rmatch (Star a) p = star_greedy (rmatch a) (snd p) p"
| "rmatch (StarLazy a) p = star_lazy (rmatch a) (snd p) p"
| "rmatch (NegLook a) p = (if rmatch a p = [] then [p] else [])"

text \<open>A literal string, compared exactly or, under \<open>re.IGNORECASE\<close>, after lower-casing.\<close>

definition lit :: "string \<Rightarrow> regex" where
  "lit s = foldr (\<lambda>x r. Seq (Chr (\<lambda>c. c = x)) r) s Eps"

definition lit_ignorecase :: "string \<Rightarrow> regex" where
  "lit_ignorecase s = foldr (\<lambda>x r. Seq (Chr (\<lambda>c. lower_chr c = lower_chr x)) r) s Eps"

primrec times :: "nat \<Rightarrow> regex \<Rightarrow> regex" where
  "times 0 r = Eps"
| "times (Suc n) r = Seq r (times n r)"

definition Plus :: "regex \<Rightarrow> regex" where
  "Plus r = Seq r (Star r)"

text \<open>
  The groups of every pattern of this program stand at the top level of the pattern, so a
  pattern is a list of parts, each marked as capturing or not. A match is the list of
  positions between the parts, and a group is the text between two of them.
\<close>

type_synonym pattern = "(bool \<times> regex) list"

primrec rpaths :: "pattern \<Rightarrow> pos \<Rightarrow> pos list list" where
  "rpaths [] p = [[p]]"
| "rpaths (g # gs) p = concat (map (\<lambda>q. map ((#) p) (rpaths gs q)) (rmatch (snd g) p))"

definition text_between :: "pos \<Rightarrow> pos \<Rightarrow> string" where
  "text_between p q = take (length (snd p) - length (snd q)) (snd p)"

fun groups :: "pattern \<Rightarrow> pos list \<Rightarrow> string list" where
  "groups (g # gs) (p # q # m) =
     (if fst g then text_between p q # groups gs (q # m) else groups gs (q # m))"
| "groups gs m = []"

text \<open>
  The scan shared by \<open>finditer\<close>, \<open>findall\<close>, \<open>search\<close> and \<open>sub\<close>: the matches from left
  to right, none overlapping another, and the characters between them. After an empty
  match the next match at the same place has to consume text.
\<close>

datatype token = Skipped char | Matched "pos list"

function scan :: "pattern \<Rightarrow> bool \<Rightarrow> pos \<Rightarrow> token list" where
  "scan pat must_advance p =
     (case List.find (\<lambda>m. \<not> must_advance \<or> advances p (last m)) (rpaths pat p) of
        None \<Rightarrow> (case snd p of [] \<Rightarrow> [] | c # cs \<Rightarrow> Skipped c # scan pat False (Some c, cs))
      | Some m \<Rightarrow>
          Matched m # (if advances p (last m) then scan pat False (last m)
                       else scan pat True p))"
  by pat_completeness auto
termination
  by (relation "measure (\<lambda>(pat, adv, p). 2 * length (snd p) + (if adv then 0 else 1))")
     (auto simp: advances_def find_Some_iff)

declare scan.simps [simp del]

definition finditer :: "pattern \<Rightarrow> string \<Rightarrow> pos list list" where
  "finditer pat s = concat (map (\<lambda>t. case t of Skipped c \<Rightarrow> [] | Matched m \<Rightarrow> [m])
                                (scan pat False (None, s)))"

definition search :: "pattern \<Rightarrow> string \<Rightarrow> pos list option" where
  "search pat s = (case finditer pat s of [] \<Rightarrow> None | m # ms \<Rightarrow> Some m)"

definition sub :: "pattern \<Rightarrow> string \<Rightarrow> string \<Rightarrow> string" where
  "sub pat repl s = concat (map (\<lambda>t. case t of Skipped c \<Rightarrow> [c] | Matched m \<Rightarrow> repl)
                                (scan pat False (None, s)))"

text \<open>The character classes \<open>\s\<close> (which is also what \<open>str.strip()\<close> removes) and \<open>\d\<close>.\<close>

definition is_space :: "char \<Rightarrow> bool" where
  "is_space c = ((9 \<le> code c \<and> code c \<le> 13) \<or> (28 \<le> code c \<and> code c \<le> 32)
                 \<or> code c = 133 \<or> code c = 160)"

definition is_digit :: "char \<Rightarrow> bool" where
  "is_digit c = (48 \<le> code c \<and> code c \<le> 57)"

section \<open>Slug Normalizer (scripts/knowledge.py, slug)\<close>

definition strip_chars :: "(char \<Rightarrow> bool) \<Rightarrow> string \<Rightarrow> string" where
  "strip_chars P s = rev (dropWhile P (rev (dropWhile P s)))"

definition strip :: "string \<Rightarrow> string" where
  "strip s = strip_chars is_space s"

definition is_a_z0_9 :: "char \<Rightarrow> bool" where
  "is_a_z0_9 c = ((97 \<le> code c \<and> code c \<le> 122) \<or> (48 \<le> code c \<and> code c \<le> 57))"

definition is_hyphen :: "char \<Rightarrow> bool" where
  "is_hyphen c = (c = CHR ''-'')"

text \<open>The patterns \<open>[^a-z0-9]+\<close> and \<open>-{2,}\<close>.\<close>

definition not_a_z0_9_plus :: pattern where
  "not_a_z0_9_plus = [(False, Plus (Chr (\<lambda>c. \<not> is_a_z0_9 c)))]"

definition hyphens_2_or_more :: pattern where
  "hyphens_2_or_more = [(False, Seq (times 2 (Chr is_hyphen)) (Star (Chr is_hyphen)))]"

definition slug :: "string \<Rightarrow> string" where
  "slug s0 =
     (let s = lower (strip s0);
          s = strip_chars is_hyphen (sub not_a_z0_9_plus ''-'' s)
      in sub hyphens_2_or_more ''-'' s)"

text \<open>
  What the two substitutions are expected to compute, written without the matcher:
  \<open>collapse\<close> puts one hyphen for each run of characters outside \<open>a-z0-9\<close>. The form of a
  slug is the expression \<open>[a-z0-9]+(-[a-z0-9]+)*\<close> matched against the whole string.
\<close>

function collapse :: "string \<Rightarrow> string" where
  "collapse [] = []"
| "collapse (c # cs) =
     (if is_a_z0_9 c then c # collapse cs
      else CHR ''-'' # collapse (dropWhile (\<lambda>x. \<not> is_a_z0_9 x) cs))"
  by pat_completeness auto
termination
  by (relation "measure length") (auto simp: le_imp_less_Suc length_dropWhile_le)

text \<open>Two shapes used on the way: texts over \<open>a-z0-9-\<close> in which no two hyphens are
  neighbours, and among them those in which every hyphen stands between two words
  (\<open>words_from b\<close>: the flag tells whether a word has just been read).\<close>

fun no_hyphen_run :: "string \<Rightarrow> bool" where
  "no_hyphen_run [] = True"
| "no_hyphen_run [c] = (is_a_z0_9 c \<or> is_hyphen c)"
| "no_hyphen_run (c # d # r) =
     ((is_a_z0_9 c \<or> is_hyphen c) \<and> \<not> (is_hyphen c \<and> is_hyphen d) \<and> no_hyphen_run (d # r))"

fun words_from :: "bool \<Rightarrow> string \<Rightarrow> bool" where
  "words_from b [] = b"
| "words_from b (c # cs) =
     (if is_a_z0_9 c then words_from True cs else is_hyphen c \<and> b \<and> words_from False cs)"

definition slug_re :: regex where
  "slug_re = Seq (Plus (Chr is_a_z0_9)) (Star (Seq (Chr is_hyphen) (Plus (Chr is_a_z0_9))))"

definition fullmatch :: "regex \<Rightarrow> string \<Rightarrow> bool" where
  "fullmatch r s = list_ex (\<lambda>q. snd q = []) (rmatch r (None, s))"

section \<open>Topic Router (scripts/study\_agent.py, route)\<close>

definition any_in :: "string list \<Rightarrow> string \<Rightarrow> bool" where
  "any_in ks t = list_ex (\<lambda>k. str_in k t) ks"

definition group1 :: "string list" where
  "group1 = [''react'', ''ag grid'', ''frontend'', ''tsx'', ''typescript'']"
definition group2 :: "string list" where
  "group2 = [''git'', ''docker'', ''kubernetes'', ''ci/cd'', ''ci-cd'', ''shell'', ''zsh'',
             ''brew'', ''homebrew'']"
definition group3 :: "string list" where
  "group3 = [''java'', ''spring'']"
definition group4 :: "string list" where
  "group4 = [''django'', ''python'']"
definition group5 :: "string list" where
  "group5 = [''langchain'', ''agent'', ''crewai'']"
definition group6 :: "string list" where
  "group6 = [''rag'', ''prompt'', ''fine-tuning'', ''evals'', ''transformer'', ''embedding'']"
definition group7 :: "string list" where
  "group7 = [''sklearn'', ''regression'', ''clustering'', ''pytorch'', ''tensorflow'']"

definition route :: "string \<Rightarrow> string \<times> string \<times> string" where
  "route topic =
     (let t = lower topic in
      if any_in group1 t then (''swe'', ''frontend'', ''typescript'')
      else if any_in group2 t then (''swe'', ''devops'', ''bash'')
      else if any_in group3 t then (''swe'', ''backend'', ''java'')
      else if any_in group4 t then (''swe'', ''backend'', ''python'')
      else if any_in group5 t then (''ai'', ''agents'', ''python'')
      else if any_in group6 t then (''ai'', ''llms'', ''python'')
      else if any_in group7 t then (''ml'', ''frameworks'', ''python'')
      else (''swe'', ''misc'', ''python''))"


section \<open>Paths and the file system\<close>

text \<open>
  A path is the list of its parts, as \<open>pathlib\<close> keeps it on a POSIX system: a relative
  path starts at the working directory (the empty list), an absolute path starts with its
  anchor. \<open>pjoin\<close> is the operator \<open>/\<close> of \<open>pathlib\<close> with a string on the right: an absolute
  right-hand side replaces the path, empty parts and \<open>.\<close> are dropped.
\<close>

type_synonym path = "string list"

fun split_on :: "char \<Rightarrow> string \<Rightarrow> string list" where
  "split_on d [] = [[]]"
| "split_on d (c # cs) =
     (if c = d then [] # split_on d cs
      else (case split_on d cs of [] \<Rightarrow> [[c]] | w # ws \<Rightarrow> (c # w) # ws))"

definition segments :: "string \<Rightarrow> string list" where
  "segments s = filter (\<lambda>w. w \<noteq> [] \<and> w \<noteq> ''.'') (split_on CHR ''/'' s)"

definition anchor :: "string \<Rightarrow> string list" where
  "anchor s = (if startswith s ''//'' \<and> \<not> startswith s ''///'' then [''//'']
               else if startswith s ''/'' then [''/''] else [])"

definition pjoin :: "path \<Rightarrow> string \<Rightarrow> path" where
  "pjoin p s = (if startswith s ''/'' then anchor s @ segments s else p @ segments s)"

definition is_anchor :: "path \<Rightarrow> bool" where
  "is_anchor p = (p = [''/''] \<or> p = [''//''])"

definition parent :: "path \<Rightarrow> path" where
  "parent p = (if is_anchor p then p else butlast p)"

definition name :: "path \<Rightarrow> string" where
  "name p = (if p = [] \<or> is_anchor p then [] else last p)"

text \<open>
  The file system maps a path to what is there: a directory, or a file with its text.
  The working directory and the root always exist. Paths are told apart by their parts:
  there are no links and \<open>..\<close> is a name like another; there are no permissions and no
  limits, so an operation fails only for what is or is not at a path.
\<close>

datatype node = Dir | File string

type_synonym fs = "(path \<times> node) list"

datatype oserror = FileNotFoundError | FileExistsError | NotADirectoryError | IsADirectoryError

definition lookup :: "fs \<Rightarrow> path \<Rightarrow> node option" where
  "lookup fs p = (if p = [] \<or> is_anchor p then Some Dir else map_of fs p)"

fun fs_put :: "path \<Rightarrow> node \<Rightarrow> fs \<Rightarrow> fs" where
  "fs_put p n [] = [(p, n)]"
| "fs_put p n ((q, m) # r) = (if q = p then (p, n) # r else (q, m) # fs_put p n r)"

definition exists :: "fs \<Rightarrow> path \<Rightarrow> bool" where
  "exists fs p = (lookup fs p \<noteq> None)"

definition is_dir :: "fs \<Rightarrow> path \<Rightarrow> bool" where
  "is_dir fs p = (lookup fs p = Some Dir)"

definition andthen :: "'e + 'a \<Rightarrow> ('a \<Rightarrow> 'e + 'b) \<Rightarrow> 'e + 'b" where
  "andthen m f = (case m of Inl e \<Rightarrow> Inl e | Inr x \<Rightarrow> f x)"

text \<open>\<open>os.mkdir\<close>: the parent has to be a directory and the path has to be free.\<close>

definition os_mkdir :: "fs \<Rightarrow> path \<Rightarrow> oserror + fs" where
  "os_mkdir fs p =
     (case lookup fs (parent p) of
        None \<Rightarrow> Inl FileNotFoundError
      | Some (File t) \<Rightarrow> Inl NotADirectoryError
      | Some Dir \<Rightarrow> (case lookup fs p of
                       Some n \<Rightarrow> Inl FileExistsError
                     | None \<Rightarrow> Inr (fs_put p Dir fs)))"

text \<open>\<open>Path.mkdir(parents, exist_ok)\<close>, as \<open>pathlib\<close> writes it: try \<open>os.mkdir\<close>; when the
  parent is missing and \<open>parents\<close> is set, make the parent and try again; any other
  failure is let through unless \<open>exist_ok\<close> is set and the path is a directory.\<close>

function mkdir :: "bool \<Rightarrow> bool \<Rightarrow> fs \<Rightarrow> path \<Rightarrow> oserror + fs" where
  "mkdir parents exist_ok fs p =
     (case os_mkdir fs p of
        Inr fs' \<Rightarrow> Inr fs'
      | Inl e \<Rightarrow>
          if e = FileNotFoundError then
            (if \<not> parents \<or> parent p = p then Inl e
             else (case mkdir True True fs (parent p) of
                     Inl e' \<Rightarrow> Inl e'
                   | Inr fs' \<Rightarrow> mkdir False exist_ok fs' p))
          else if \<not> exist_ok \<or> \<not> is_dir fs p then Inl e
          else Inr fs)"
  by pat_completeness auto
termination
proof (relation "measure (\<lambda>(parents, exist_ok, fs, p). 2 * length p + (if parents then 1 else 0))")
  show "wf (measure (\<lambda>(parents, exist_ok, fs, p). 2 * length p + (if parents then 1 else 0)))"
    by simp
next
  fix parents exist_ok :: bool and fs :: fs and p :: path and e :: oserror
  assume "\<not> (\<not> parents \<or> parent p = p)"
  then have "parent p = butlast p" "p \<noteq> []"
    by (auto simp: parent_def split: if_splits)
  then show "((True, True, fs, parent p), (parents, exist_ok, fs, p))
      \<in> measure (\<lambda>(parents, exist_ok, fs, p). 2 * length p + (if parents then 1 else 0))"
    by (cases p rule: rev_cases) auto
next
  fix parents exist_ok :: bool and fs fs' :: fs and p :: path and e :: oserror
  assume "\<not> (\<not> parents \<or> parent p = p)"
  then show "((False, exist_ok, fs', p), (parents, exist_ok, fs, p))
      \<in> measure (\<lambda>(parents, exist_ok, fs, p). 2 * length p + (if parents then 1 else 0))"
    by simp
qed

declare mkdir.simps [simp del]

text \<open>\<open>Path.touch()\<close>: an existing path is left as it is, otherwise an empty file is made.\<close>

definition touch :: "fs \<Rightarrow> path \<Rightarrow> oserror + fs" where
  "touch fs p =
     (if exists fs p then Inr fs
      else (case lookup fs (parent p) of
              None \<Rightarrow> Inl FileNotFoundError
            | Some (File t) \<Rightarrow> Inl NotADirectoryError
            | Some Dir \<Rightarrow> Inr (fs_put p (File []) fs)))"

text \<open>\<open>Path.write_text(data)\<close>: opens for writing, which makes or truncates the file.\<close>

definition write_text :: "fs \<Rightarrow> path \<Rightarrow> string \<Rightarrow> oserror + fs" where
  "write_text fs p data =
     (case lookup fs p of
        Some Dir \<Rightarrow> Inl IsADirectoryError
      | Some (File t) \<Rightarrow> Inr (fs_put p (File data) fs)
      | None \<Rightarrow> (case lookup fs (parent p) of
                   None \<Rightarrow> Inl FileNotFoundError
                 | Some (File t) \<Rightarrow> Inl NotADirectoryError
                 | Some Dir \<Rightarrow> Inr (fs_put p (File data) fs)))"

text \<open>\<open>sorted(p.iterdir())\<close>: the entries of a directory, ordered as paths are.\<close>

definition iterdir :: "fs \<Rightarrow> path \<Rightarrow> oserror + path list" where
  "iterdir fs p =
     (case lookup fs p of
        None \<Rightarrow> Inl FileNotFoundError
      | Some (File t) \<Rightarrow> Inl NotADirectoryError
      | Some Dir \<Rightarrow> Inr (remdups (filter (\<lambda>q. q \<noteq> [] \<and> \<not> is_anchor q \<and> parent q = p)
                                         (map fst fs))))"

definition sorted_iterdir :: "fs \<Rightarrow> path \<Rightarrow> oserror + path list" where
  "sorted_iterdir fs p = andthen (iterdir fs p) (\<lambda>qs. Inr (sort qs))"


section \<open>Tree Scaffolder and Topic Materializer (scripts/knowledge.py)\<close>

definition CATEGORIES :: "(string \<times> (string \<times> string list) list) list" where
  "CATEGORIES =
    [(''swe'',
       [(''frontend'', [''react'', ''typescript'', ''css-tailwind'']),
        (''backend'', [''java-spring'', ''python-django'', ''node-express'']),
        (''languages'', [''javascript'', ''python'', ''java'', ''rust'']),
        (''devops'', [''git'', ''ci-cd'', ''docker-k8s'', ''cloud-aws'', ''shell'']),
        (''security'', [''web-security'', ''authentication'', ''cryptography'']),
        (''misc'', [])]),
     (''ml'',
       [(''fundamentals'', [''linear-regression'', ''decision-trees'', ''clustering'']),
        (''data-engineering'', [''preprocessing'', ''feature-engineering'', ''pipelines'']),
        (''mlops'', [''model-training'', ''model-deployment'', ''monitoring'']),
        (''frameworks'', [''sklearn'', ''tensorflow'', ''pytorch'']),
        (''misc'', [])]),
     (''ai'',
       [(''llms'', [''prompting'', ''fine-tuning'', ''evals'', ''safety-redteaming'']),
        (''nlp-classic'', [''embeddings'', ''transformers'', ''seq2seq'']),
        (''agents'', [''langchain'', ''crewai'', ''orchestration'']),
        (''applications'', [''chatbots'', ''search'', ''retrieval-augmented-gen'']),
        (''misc'', [])])]"

text \<open>\<open>ensure_tree\<close>: the three nested loops over the taxonomy, innermost first.\<close>

fun ensure_tree_topics :: "path \<Rightarrow> string list \<Rightarrow> fs \<Rightarrow> oserror + fs" where
  "ensure_tree_topics base [] fs = Inr fs"
| "ensure_tree_topics base (t # ts) fs =
     andthen (mkdir True True fs (pjoin base t)) (\<lambda>fs.
     andthen (touch fs (pjoin (pjoin base t) ''.gitkeep'')) (\<lambda>fs.
     ensure_tree_topics base ts fs))"

fun ensure_tree_groups :: "path \<Rightarrow> string \<Rightarrow> (string \<times> string list) list \<Rightarrow> fs \<Rightarrow> oserror + fs" where
  "ensure_tree_groups ROOT area [] fs = Inr fs"
| "ensure_tree_groups ROOT area ((grp, tops) # gs) fs =
     (let base = pjoin (pjoin ROOT area) grp in
      andthen (mkdir True True fs base) (\<lambda>fs.
      andthen (touch fs (pjoin base ''.gitkeep'')) (\<lambda>fs.
      andthen (ensure_tree_topics base tops fs) (\<lambda>fs.
      ensure_tree_groups ROOT area gs fs))))"

fun ensure_tree_areas :: "path \<Rightarrow> (string \<times> (string \<times> string list) list) list \<Rightarrow> fs \<Rightarrow> oserror + fs" where
  "ensure_tree_areas ROOT [] fs = Inr fs"
| "ensure_tree_areas ROOT ((area, grps) # rest) fs =
     andthen (ensure_tree_groups ROOT area grps fs) (\<lambda>fs. ensure_tree_areas ROOT rest fs)"

definition ensure_tree :: "path \<Rightarrow> fs \<Rightarrow> oserror + fs" where
  "ensure_tree ROOT fs =
     andthen (ensure_tree_areas ROOT CATEGORIES fs) (\<lambda>fs. touch fs (pjoin ROOT ''INDEX.md''))"

text \<open>
  Conditions under which the scaffolder cannot fail: every file of the tree is a
  \<open>.gitkeep\<close> file, no part of the path at hand is \<open>.gitkeep\<close>, and a name is a plain
  one-part name.
\<close>

definition only_gitkeep_files :: "fs \<Rightarrow> bool" where
  "only_gitkeep_files fs = (\<forall>q t. lookup fs q = Some (File t) \<longrightarrow> q \<noteq> [] \<and> last q = ''.gitkeep'')"

definition clean :: "path \<Rightarrow> bool" where
  "clean p = (''.gitkeep'' \<notin> set p)"

definition plain :: "string \<Rightarrow> bool" where
  "plain n = (segments n = [n] \<and> \<not> startswith n ''/'' \<and> n \<noteq> ''.gitkeep'')"

text \<open>
  The README stub. The horizontal ellipsis U+2026 of the template lies outside the 8-bit
  range and stands here as its UTF-8 bytes. \<open>textwrap.dedent\<close> and the date of the day
  come from outside the program and are parameters.
\<close>

definition ellipsis :: string where
  "ellipsis = [CHR 0xE2, CHR 0x80, CHR 0xA6]"

definition readme_stub :: "(string \<Rightarrow> string) \<Rightarrow> string \<Rightarrow> string \<Rightarrow> string \<Rightarrow> string \<Rightarrow> string" where
  "readme_stub dedent today topic area grp = dedent (concat
     [''        # '', topic, [newline],
      [newline],
      ''        **Area:** '', area, '' / **Group:** '', grp, ''  '', [newline],
      ''        **Created:** '', today, [newline],
      [newline],
      ''        ## Difficulty'', [newline],
      ''        (easy|medium|hard)'', [newline],
      [newline],
      ''        ## Why this matters'', [newline],
      ''        (short note)'', [newline],
      [newline],
      ''        ## Key concepts'', [newline],
      ''        - '', ellipsis, [newline],
      [newline],
      ''        ## Pitfalls'', [newline],
      ''        - '', ellipsis, [newline],
      [newline],
      ''        ## Further reading'', [newline],
      ''        - '', ellipsis, [newline],
      [newline],
      ''        ''])"

definition example_ext :: "string \<Rightarrow> string" where
  "example_ext lang =
     (case map_of [(''python'', ''py''), (''typescript'', ''ts''), (''javascript'', ''js''),
                   (''bash'', ''sh'')] lang of
        Some ext \<Rightarrow> ext | None \<Rightarrow> ''txt'')"

definition dquote :: char where
  "dquote = CHR 0x22"

definition hello :: string where
  "hello = [dquote] @ ''hello from example'' @ [dquote]"

definition example_code :: "string \<Rightarrow> string" where
  "example_code lang =
     (case map_of [(''python'', ''print('' @ hello @ '')'' @ [newline]),
                   (''javascript'', ''console.log('' @ hello @ '')'' @ [newline]),
                   (''typescript'', ''console.log('' @ hello @ '')'' @ [newline]),
                   (''bash'', ''echo '' @ hello @ [newline])] lang of
        Some body \<Rightarrow> body | None \<Rightarrow> ''Example placeholder.'' @ [newline])"

definition add_topic ::
  "(string \<Rightarrow> string) \<Rightarrow> string \<Rightarrow> path \<Rightarrow> string \<Rightarrow> string \<Rightarrow> string \<Rightarrow> string \<Rightarrow> fs \<Rightarrow> oserror + fs" where
  "add_topic dedent today ROOT area0 group0 topic lang fs =
     (let area = lower area0;
          grp = lower group0;
          tslug = slug topic;
          dest = pjoin (pjoin (pjoin ROOT area) grp) tslug;
          readme = pjoin dest ''README.md'';
          ext = example_ext lang;
          ex = pjoin (pjoin dest ''examples'') (''main.'' @ ext)
      in
      andthen (if \<not> exists fs dest then mkdir True True fs dest else Inr fs) (\<lambda>fs.
      andthen (mkdir False True fs (pjoin dest ''examples'')) (\<lambda>fs.
      andthen (touch fs (pjoin dest ''.gitkeep'')) (\<lambda>fs.
      andthen (if \<not> exists fs readme
               then write_text fs readme (readme_stub dedent today topic area grp)
               else Inr fs) (\<lambda>fs.
      if \<not> exists fs ex then write_text fs ex (example_code lang) else Inr fs)))))"

section \<open>Index Builder (scripts/build\_index.py)\<close>

text \<open>
  \<open>str.upper()\<close> and \<open>str.capitalize()\<close>. Three characters of the 8-bit range have their
  upper case outside it (U+00B5, U+00DF, U+00FF) and are left as they are here.
\<close>

definition upper_chr :: "char \<Rightarrow> char" where
  "upper_chr c =
     (if (97 \<le> code c \<and> code c \<le> 122) \<or> (224 \<le> code c \<and> code c \<le> 254 \<and> code c \<noteq> 247)
      then char_of (code c - 32) else c)"

definition upper :: "string \<Rightarrow> string" where
  "upper s = map upper_chr s"

definition capitalize :: "string \<Rightarrow> string" where
  "capitalize s = (case s of [] \<Rightarrow> [] | c # cs \<Rightarrow> upper_chr c # lower cs)"

definition replace_chr :: "char \<Rightarrow> char \<Rightarrow> string \<Rightarrow> string" where
  "replace_chr a b s = map (\<lambda>c. if c = a then b else c) s"

fun join :: "string \<Rightarrow> string list \<Rightarrow> string" where
  "join sep [] = []"
| "join sep [x] = x"
| "join sep (x # y # zs) = x @ sep @ join sep (y # zs)"

text \<open>\<open>readme.relative_to(ROOT).as_posix()\<close>, for a path that lies under \<open>ROOT\<close>.\<close>

definition relative_posix :: "path \<Rightarrow> path \<Rightarrow> string" where
  "relative_posix ROOT p = join ''/'' (drop (length ROOT) p)"

definition hidden_or_no_dir :: "fs \<Rightarrow> path \<Rightarrow> bool" where
  "hidden_or_no_dir fs d = (\<not> is_dir fs d \<or> startswith (name d) ''.'')"

text \<open>The book emoji U+1F4DA of the title line, as its UTF-8 bytes. \<open>listing\<close> is
  \<open>sorted(d.iterdir())\<close> inside the loops, where \<open>d\<close> has just been found to be a
  directory, so that it cannot fail; the listing of \<open>ROOT\<close> itself can.\<close>

definition books :: string where
  "books = [CHR 0xF0, CHR 0x9F, CHR 0x93, CHR 0x9A]"

definition listing :: "fs \<Rightarrow> path \<Rightarrow> path list" where
  "listing fs d = (case sorted_iterdir fs d of Inl e \<Rightarrow> [] | Inr qs \<Rightarrow> qs)"

definition topic_lines :: "path \<Rightarrow> fs \<Rightarrow> path \<Rightarrow> string list" where
  "topic_lines ROOT fs topic_dir =
     (if hidden_or_no_dir fs topic_dir then []
      else (let readme = pjoin topic_dir ''README.md'' in
            if exists fs readme
            then [''  - ['' @ capitalize (replace_chr CHR ''-'' CHR '' '' (name topic_dir))
                  @ '']('' @ relative_posix ROOT readme @ '')'']
            else []))"

definition group_lines :: "path \<Rightarrow> fs \<Rightarrow> path \<Rightarrow> string list" where
  "group_lines ROOT fs group_dir =
     (if hidden_or_no_dir fs group_dir then []
      else (''- '' @ capitalize (name group_dir))
           # concat (map (topic_lines ROOT fs) (listing fs group_dir)))"

definition area_lines :: "path \<Rightarrow> fs \<Rightarrow> path \<Rightarrow> string list" where
  "area_lines ROOT fs area_dir =
     (if hidden_or_no_dir fs area_dir then []
      else (''## '' @ upper (name area_dir))
           # concat (map (group_lines ROOT fs) (listing fs area_dir)) @ [[]])"

definition index_lines :: "path \<Rightarrow> fs \<Rightarrow> path list \<Rightarrow> string list" where
  "index_lines ROOT fs area_dirs =
     (''# '' @ books @ '' Knowledge Index'' @ [newline])
     # concat (map (area_lines ROOT fs) area_dirs)"

definition build_index :: "path \<Rightarrow> fs \<Rightarrow> oserror + fs" where
  "build_index ROOT fs =
     andthen (sorted_iterdir fs ROOT) (\<lambda>area_dirs.
     write_text fs (pjoin ROOT ''INDEX.md'') (join [newline] (index_lines ROOT fs area_dirs)))"

text \<open>The places \<open>add_topic\<close> works on, named for the statements below: the directory of
  the topic (\<open>dest\<close>), its README and its example file.\<close>

definition topic_dir :: "path \<Rightarrow> string \<Rightarrow> string \<Rightarrow> string \<Rightarrow> path" where
  "topic_dir ROOT area0 group0 topic =
     pjoin (pjoin (pjoin ROOT (lower area0)) (lower group0)) (slug topic)"

definition readme_path :: "path \<Rightarrow> string \<Rightarrow> string \<Rightarrow> string \<Rightarrow> path" where
  "readme_path ROOT area0 group0 topic = pjoin (topic_dir ROOT area0 group0 topic) ''README.md''"

definition example_path :: "path \<Rightarrow> string \<Rightarrow> string \<Rightarrow> string \<Rightarrow> string \<Rightarrow> path" where
  "example_path ROOT area0 group0 topic ext =
     pjoin (pjoin (topic_dir ROOT area0 group0 topic) ''examples'') (''main.'' @ ext)"

text \<open>A tree in which a topic already has a README of its own.\<close>

definition tree_with_readme :: fs where
  "tree_with_readme =
     [([''knowledge''], Dir), ([''knowledge'', ''swe''], Dir),
      ([''knowledge'', ''swe'', ''backend''], Dir),
      ([''knowledge'', ''swe'', ''backend'', ''spring-boot''], Dir),
      ([''knowledge'', ''swe'', ''backend'', ''spring-boot'', ''README.md''], File ''my notes'')]"

text \<open>The tree of the index example: one area \<open>swe\<close>, one group \<open>frontend\<close>, one topic
  \<open>react-hooks\<close> that holds a README with some text.\<close>

definition index_example_tree :: "string \<Rightarrow> fs" where
  "index_example_tree readme_text =
     [([''knowledge''], Dir),
      ([''knowledge'', ''swe''], Dir),
      ([''knowledge'', ''swe'', ''frontend''], Dir),
      ([''knowledge'', ''swe'', ''frontend'', ''react-hooks''], Dir),
      ([''knowledge'', ''swe'', ''frontend'', ''react-hooks'', ''README.md''], File readme_text)]"


section \<open>Journal Parser (scripts/study\_agent.py, parse\_yearly\_journal)\<close>

text \<open>The pieces \<open>\s*\<close> and \<open>\d{4}-\d{2}-\d{2}\<close>, and \<open>.\<close> with and without \<open>re.DOTALL\<close>.\<close>

definition spaces :: regex where
  "spaces = Star (Chr is_space)"

definition date_re :: regex where
  "date_re = Seq (times 4 (Chr is_digit)) (Seq (lit ''-'')
            (Seq (times 2 (Chr is_digit)) (Seq (lit ''-'') (times 2 (Chr is_digit)))))"

definition dot :: "bool \<Rightarrow> char \<Rightarrow> bool" where
  "dot dotall c = (dotall \<or> c \<noteq> newline)"

text \<open>\<open>DATE_H\<close> is \<open>^##\s*(\d{4}-\d{2}-\d{2})\s*$\<close>, with its one group.\<close>

definition DATE_H :: pattern where
  "DATE_H = [(False, Seq Bol (Seq (lit ''##'') spaces)), (True, date_re), (False, Seq spaces Eol)]"

text \<open>\<open>BLOCK\<close> is \<open>(?:(?!^##\s*\d{4}-\d{2}-\d{2}\s*$).)*\<close>; whether its \<open>.\<close> takes a newline
  depends on the flags of the pattern it is put into.\<close>

definition date_heading :: regex where
  "date_heading = Seq Bol (Seq (lit ''##'') (Seq spaces (Seq date_re (Seq spaces Eol))))"

definition BLOCK :: "bool \<Rightarrow> regex" where
  "BLOCK dotall = Star (Seq (NegLook date_heading) (Chr (dot dotall)))"

text \<open>\<open>sec_re\<close> is \<open>DATE_H\n(BLOCK)\<close>, compiled with \<open>re.MULTILINE | re.DOTALL\<close>.\<close>

definition sec_re :: pattern where
  "sec_re = DATE_H @ [(False, Chr (\<lambda>c. c = newline)), (True, BLOCK True)]"

text \<open>The pattern of \<open>parse_list\<close> is \<open>^heading:\s*\n(BLOCK)\<close>, compiled with
  \<open>re.IGNORECASE | re.MULTILINE\<close> and without \<open>re.DOTALL\<close>.\<close>

definition list_re :: "string \<Rightarrow> pattern" where
  "list_re heading =
     [(False, Seq Bol (Seq (lit_ignorecase heading) (Seq (lit_ignorecase '':'')
                (Seq spaces (Chr (\<lambda>c. c = newline)))))),
      (True, BLOCK False)]"

text \<open>The bullets are found with \<open>^\s*-\s*(.+?)\s*$\<close> under \<open>re.MULTILINE\<close>.\<close>

definition bullet_re :: pattern where
  "bullet_re =
     [(False, Seq Bol (Seq spaces (Seq (lit ''-'') spaces))),
      (True, Seq (Chr (dot False)) (StarLazy (Chr (dot False)))),
      (False, Seq spaces Eol)]"

definition match_group :: "pattern \<Rightarrow> pos list \<Rightarrow> nat \<Rightarrow> string" where
  "match_group pat m k = (case drop (k - 1) (groups pat m) of [] \<Rightarrow> [] | g # gs \<Rightarrow> g)"

text \<open>\<open>re.findall\<close> for a pattern with one group: the text of that group in every match.\<close>

definition findall :: "pattern \<Rightarrow> string \<Rightarrow> string list" where
  "findall pat s = map (\<lambda>m. match_group pat m 1) (finditer pat s)"

definition parse_list :: "string \<Rightarrow> string \<Rightarrow> string list" where
  "parse_list section heading =
     (case search (list_re heading) section of
        None \<Rightarrow> []
      | Some mm \<Rightarrow>
          (let bullets = findall bullet_re (match_group (list_re heading) mm 1)
           in map strip (filter (\<lambda>b. strip b \<noteq> []) bullets)))"

record journal_entry =
  date :: string
  topics :: "string list"
  notes' :: "string list"

text \<open>The text of the journal file and the date of the day are given; \<open>target_date\<close> is
  \<open>None\<close> or a string, and an empty string counts as not given.\<close>

definition parse_yearly_journal :: "string \<Rightarrow> string \<Rightarrow> string option \<Rightarrow> journal_entry" where
  "parse_yearly_journal today text target_date0 =
     (let target_date = (case target_date0 of
                           None \<Rightarrow> today
                         | Some d \<Rightarrow> if d = [] then today else d);
          section = map_option (\<lambda>m. match_group sec_re m 2)
                      (List.find (\<lambda>m. match_group sec_re m 1 = target_date)
                                 (finditer sec_re text))
      in if section = None \<or> section = Some []
         then \<lparr>date = target_date, topics = [], notes' = []\<rparr>
         else \<lparr>date = target_date,
               topics = parse_list (the section) ''Topics'',
               notes' = parse_list (the section) ''Notes''\<rparr>)"


definition pos_after :: "pos \<Rightarrow> string \<Rightarrow> pos" where
  "pos_after p a = (if a = [] then fst p else Some (last a), drop (length a) (snd p))"

definition reads :: "pos \<Rightarrow> string \<Rightarrow> pos \<Rightarrow> bool" where
  "reads p a q = (snd p = a @ snd q \<and> fst q = (if a = [] then fst p else Some (last a)))"




section \<open>Study Orchestrator (scripts/study\_agent.py, main)\<close>

text \<open>
  What lies outside the program is given to the model: the text behind a path (or the
  exception of reading it, an \<open>OSError\<close> or a \<open>UnicodeDecodeError\<close>), the date of the day,
  and how each child process ends, by the number of the call. What is printed is kept as a
  list of messages. A child process ends with an exit status, or the program could not be started.
  \<open>subprocess.run(..., check=True)\<close> raises \<open>CalledProcessError\<close> for an exit status other
  than 0 and an \<open>OSError\<close> when the program cannot be started.
\<close>

datatype exn = CalledProcessError | OSError | UnicodeDecodeError

datatype proc = Exited int | NotStarted

datatype message = Usage | NoTopicsFound string | Committed | NothingToCommit

datatype ending = Returned | SystemExit int | Raised exn

record world =
  read_text :: "string \<Rightarrow> exn + string"
  now :: string
  run :: "nat \<Rightarrow> string list \<Rightarrow> proc"

definition run_check :: "proc \<Rightarrow> exn option" where
  "run_check r = (case r of
                    Exited n \<Rightarrow> if n = 0 then None else Some CalledProcessError
                  | NotStarted \<Rightarrow> Some OSError)"

text \<open>\<open>add_topic\<close> of the agent starts \<open>scripts/knowledge.py add\<close> as a child process; the
  loop over the topics stops at the first exception.\<close>

definition add_topic_cmd :: "string \<Rightarrow> string \<Rightarrow> string \<Rightarrow> string \<Rightarrow> string list" where
  "add_topic_cmd area grp topic lang =
     [''python'', ''scripts/knowledge.py'', ''add'', area, grp, topic, ''--lang'', lang]"

fun add_topics :: "world \<Rightarrow> nat \<Rightarrow> string list \<Rightarrow> exn option" where
  "add_topics w k [] = None"
| "add_topics w k (t # ts) =
     (case route t of (area, grp, lang) \<Rightarrow>
        (case run_check (run w k (add_topic_cmd area grp t lang)) of
           Some e \<Rightarrow> Some e
         | None \<Rightarrow> add_topics w (Suc k) ts))"

text \<open>The last step of \<open>main\<close>: \<open>git add\<close>, then \<open>git commit\<close>, inside
  \<open>try ... except subprocess.CalledProcessError\<close>. The calls are number \<open>k\<close> and \<open>k + 1\<close>.\<close>

definition commit :: "world \<Rightarrow> nat \<Rightarrow> string \<Rightarrow> message list \<times> ending" where
  "commit w k d =
     (case run_check (run w k [''git'', ''add'', ''-A'']) of
        Some e \<Rightarrow> if e = CalledProcessError then ([NothingToCommit], Returned)
                  else ([], Raised e)
      | None \<Rightarrow>
          (case run_check (run w (Suc k) [''git'', ''commit'', ''-m'', ''study: '' @ d @ '' topics'']) of
             Some e \<Rightarrow> if e = CalledProcessError then ([NothingToCommit], Returned)
                       else ([], Raised e)
           | None \<Rightarrow> ([Committed], Returned)))"

definition main :: "world \<Rightarrow> string list \<Rightarrow> message list \<times> ending" where
  "main w argv =
     (if length argv < 2 then ([Usage], SystemExit 1)
      else
        (let md_path = argv ! 1;
             target_date = (if length argv \<ge> 4 \<and> argv ! 2 = ''--date''
                            then Some (argv ! 3) else None)
         in case read_text w md_path of
              Inl e \<Rightarrow> ([], Raised e)
            | Inr text \<Rightarrow>
                (let data = parse_yearly_journal (now w) text target_date in
                 if topics data = [] then ([NoTopicsFound (date data)], SystemExit 0)
                 else (case add_topics w 0 (topics data) of
                         Some e \<Rightarrow> ([], Raised e)
                       | None \<Rightarrow> commit w (length (topics data)) (date data)))))"

text \<open>The pairs of area and group that \<open>route\<close> can return.\<close>

definition routed_groups :: "(string \<times> string) list" where
  "routed_groups =
     [(''swe'', ''frontend''), (''swe'', ''devops''), (''swe'', ''backend''), (''ai'', ''agents''),
      (''ai'', ''llms''), (''ml'', ''frameworks''), (''swe'', ''misc'')]"

text \<open>The journal of the example: a section \<open>## 2025-06-01\<close> with a \<open>Topics:\<close> list of
  two bullets and a \<open>Notes:\<close> list of one.\<close>

definition example_journal :: string where
  "example_journal =
     ''## 2025-06-01'' @ [newline] @
     ''Topics:'' @ [newline] @
     ''- rust basics'' @ [newline] @
     ''- docker networking'' @ [newline] @
     ''Notes:'' @ [newline] @
     ''- review later'' @ [newline]"

text \<open>
  Three worlds for the example journal. In the first, \<open>git\<close> cannot be started (it is not
  installed); in the second, \<open>git commit\<close> ends with status 1 (there is nothing to commit);
  in the third, every child process ends with status 0.
\<close>

definition example_argv :: "string list" where
  "example_argv = [''scripts/study_agent.py'', ''journal/2025.md'', ''--date'', ''2025-06-01'']"

definition world_without_git :: world where
  "world_without_git =
     \<lparr>read_text = (\<lambda>path. Inr example_journal),
      now = ''2025-06-02'',
      run = (\<lambda>k cmd. if take 1 cmd = [''git''] then NotStarted else Exited 0)\<rparr>"

definition world_nothing_to_commit :: world where
  "world_nothing_to_commit =
     \<lparr>read_text = (\<lambda>path. Inr example_journal),
      now = ''2025-06-02'',
      run = (\<lambda>k cmd. if take 2 cmd = [''git'', ''commit''] then Exited 1 else Exited 0)\<rparr>"

definition world_clean_commit :: world where
  "world_clean_commit =
     \<lparr>read_text = (\<lambda>path. Inr example_journal),
      now = ''2025-06-02'',
      run = (\<lambda>k cmd. Exited 0)\<rparr>"


section \<open>Properties of the Slug Normalizer\<close>

subsection \<open>The matcher on a single part\<close>

lemma rpaths_single: "rpaths [(b, r)] p = map (\<lambda>q. [p, q]) (rmatch r p)"
  by (simp add: concat_map_singleton)

lemma find_all: "List.find (\<lambda>m. True) xs = (case xs of [] \<Rightarrow> None | x # ys \<Rightarrow> Some x)"
  by (cases xs) simp_all

lemma scan_no_match:
  "rpaths pat (pv, c # cs) = [] \<Longrightarrow> scan pat adv (pv, c # cs) = Skipped c # scan pat False (Some c, cs)"
  by (subst scan.simps) simp

lemma scan_end_no_match: "rpaths pat (pv, []) = [] \<Longrightarrow> scan pat adv (pv, []) = []"
  by (subst scan.simps) simp

lemma scan_match:
  "rpaths pat p = m # ms \<Longrightarrow> advances p (last m) \<Longrightarrow>
     scan pat False p = Matched m # scan pat False (last m)"
  by (subst scan.simps) simp

lemma star_greedy_not_Nil: "star_greedy f fuel p \<noteq> []"
  by (cases fuel) simp_all

lemma hd_star_greedy_Chr:
  "length s \<le> length fuel \<Longrightarrow>
     snd (hd (star_greedy (rmatch (Chr P)) fuel (pv, s))) = dropWhile P s"
proof (induction fuel arbitrary: pv s)
  case Nil
  then show ?case by simp
next
  case (Cons x fuel)
  show ?case
  proof (cases s)
    case Nil
    then show ?thesis by simp
  next
    case (Cons c cs)
    with Cons.prems Cons.IH [of cs "Some c"] show ?thesis
      by (simp add: advances_def star_greedy_not_Nil)
  qed
qed

lemma sub_collapse_aux:
  "concat (map (\<lambda>t. case t of Skipped c \<Rightarrow> [c] | Matched m \<Rightarrow> ''-'')
               (scan not_a_z0_9_plus False (pv, s))) = collapse s"
proof (induction s arbitrary: pv rule: length_induct)
  case (1 s)
  show ?case
  proof (cases s)
    case Nil
    then show ?thesis
      by (simp add: scan_end_no_match not_a_z0_9_plus_def rpaths_single Plus_def)
  next
    case (Cons c cs)
    show ?thesis
    proof (cases "is_a_z0_9 c")
      case True
      with Cons have "rpaths not_a_z0_9_plus (pv, s) = []"
        by (simp add: not_a_z0_9_plus_def rpaths_single Plus_def)
      with Cons True "1.IH" show ?thesis
        by (simp add: scan_no_match)
    next
      case False
      let ?L = "star_greedy (rmatch (Chr (\<lambda>c. \<not> is_a_z0_9 c))) cs (Some c, cs)"
      let ?q = "hd ?L"
      have q: "snd ?q = dropWhile (\<lambda>c. \<not> is_a_z0_9 c) cs"
        by (rule hd_star_greedy_Chr) simp
      obtain ms where L: "rpaths not_a_z0_9_plus (pv, s) = [(pv, s), ?q] # ms"
        using Cons False star_greedy_not_Nil [of "rmatch (Chr (\<lambda>c. \<not> is_a_z0_9 c))" cs "(Some c, cs)"]
        by (cases ?L) (simp_all add: not_a_z0_9_plus_def rpaths_single Plus_def)
      have adv: "advances (pv, s) ?q"
        using q Cons by (simp add: advances_def le_imp_less_Suc length_dropWhile_le)
      have "scan not_a_z0_9_plus False (pv, s) = Matched [(pv, s), ?q] # scan not_a_z0_9_plus False ?q"
        using scan_match [OF L] adv by simp
      moreover have "length (snd ?q) < length s"
        using adv by (simp add: advances_def)
      then have "concat (map (\<lambda>t. case t of Skipped c \<Rightarrow> [c] | Matched m \<Rightarrow> ''-'')
               (scan not_a_z0_9_plus False ?q)) = collapse (snd ?q)"
        using "1.IH" [rule_format, of "snd ?q" "fst ?q"] by simp
      ultimately show ?thesis
        using Cons False q by simp
    qed
  qed
qed

lemma sub_collapse: "sub not_a_z0_9_plus ''-'' s = collapse s"
  by (simp add: sub_def sub_collapse_aux)


subsection \<open>Characters\<close>

lemma code_hyphen: "code CHR ''-'' = 45"
  by (simp add: code_def)

lemma a_z0_9_not_hyphen: "is_a_z0_9 c \<Longrightarrow> \<not> is_hyphen c"
  by (auto simp: is_a_z0_9_def is_hyphen_def code_hyphen)

lemma a_z0_9_not_space: "is_a_z0_9 c \<Longrightarrow> \<not> is_space c"
  by (auto simp: is_a_z0_9_def is_space_def)

lemma lower_chr_a_z0_9: "is_a_z0_9 c \<Longrightarrow> lower_chr c = c"
  by (auto simp: is_a_z0_9_def lower_chr_def)

lemma lower_chr_hyphen: "is_hyphen c \<Longrightarrow> lower_chr c = c"
  by (auto simp: is_hyphen_def lower_chr_def code_hyphen)

lemma hyphen_not_space: "is_hyphen c \<Longrightarrow> \<not> is_space c"
  by (auto simp: is_hyphen_def is_space_def code_hyphen)

subsection \<open>Shapes\<close>

lemma no_hyphen_run_tl: "no_hyphen_run (c # t) \<Longrightarrow> no_hyphen_run t"
  by (cases t) simp_all

lemma no_hyphen_run_chars: "no_hyphen_run t \<Longrightarrow> c \<in> set t \<Longrightarrow> is_a_z0_9 c \<or> is_hyphen c"
  by (induction t rule: no_hyphen_run.induct) auto

lemma no_hyphen_run_dropWhile: "no_hyphen_run t \<Longrightarrow> no_hyphen_run (dropWhile P t)"
  by (induction t) (auto dest: no_hyphen_run_tl)

lemma no_hyphen_run_prefix: "no_hyphen_run (u @ r) \<Longrightarrow> no_hyphen_run u"
proof (induction u rule: no_hyphen_run.induct)
  case 1
  then show ?case by simp
next
  case (2 c)
  then show ?case by (cases r) simp_all
next
  case (3 c d r')
  then show ?case by simp
qed

lemma no_hyphen_run_word: "is_a_z0_9 c \<Longrightarrow> no_hyphen_run t \<Longrightarrow> no_hyphen_run (c # t)"
  by (cases t) (simp_all add: a_z0_9_not_hyphen)

lemma no_hyphen_run_hyphen:
  "no_hyphen_run t \<Longrightarrow> t = [] \<or> \<not> is_hyphen (hd t) \<Longrightarrow> no_hyphen_run (CHR ''-'' # t)"
  by (cases t) (simp_all add: is_hyphen_def)

lemma hd_collapse: "s \<noteq> [] \<Longrightarrow> is_a_z0_9 (hd s) \<Longrightarrow> collapse s \<noteq> [] \<and> hd (collapse s) = hd s"
  by (cases s) simp_all

lemma collapse_Nil: "collapse s = [] \<longleftrightarrow> s = []"
  by (cases s) simp_all

lemma no_hyphen_run_collapse: "no_hyphen_run (collapse s)"
proof (induction s rule: collapse.induct)
  case 1
  then show ?case by simp
next
  case (2 c cs)
  show ?case
  proof (cases "is_a_z0_9 c")
    case True
    with 2 show ?thesis by (simp add: no_hyphen_run_word)
  next
    case False
    let ?d = "dropWhile (\<lambda>x. \<not> is_a_z0_9 x) cs"
    have "collapse ?d = [] \<or> \<not> is_hyphen (hd (collapse ?d))"
    proof (cases "?d = []")
      case True
      then have "collapse ?d = []" by (simp only: collapse.simps)
      then show ?thesis by blast
    next
      case False
      then have "is_a_z0_9 (hd ?d)" using hd_dropWhile [of "\<lambda>x. \<not> is_a_z0_9 x" cs] by simp
      with False hd_collapse [of ?d] show ?thesis by (simp add: a_z0_9_not_hyphen)
    qed
    with 2 False show ?thesis by (simp add: no_hyphen_run_hyphen)
  qed
qed

lemma words_from_shape:
  "no_hyphen_run u \<Longrightarrow> u \<noteq> [] \<Longrightarrow> \<not> is_hyphen (last u) \<Longrightarrow> b \<or> \<not> is_hyphen (hd u) \<Longrightarrow> words_from b u"
proof (induction u arbitrary: b rule: no_hyphen_run.induct)
  case 1
  then show ?case by simp
next
  case (2 c)
  then show ?case by simp
next
  case (3 c d r)
  from "3.prems"(1) have run: "no_hyphen_run (d # r)" and cd: "\<not> (is_hyphen c \<and> is_hyphen d)"
    and c: "is_a_z0_9 c \<or> is_hyphen c"
    by simp_all
  from "3.prems"(3) have l: "\<not> is_hyphen (last (d # r))" by simp
  show ?case
  proof (cases "is_a_z0_9 c")
    case True
    from "3.IH" [OF run _ l, of True] True show ?thesis by simp
  next
    case False
    with c have h: "is_hyphen c" by simp
    with cd have "\<not> is_hyphen (hd (d # r))" by simp
    with "3.IH" [OF run _ l, of False] have "words_from False (d # r)" by simp
    with False h "3.prems"(4) show ?thesis by simp
  qed
qed

lemma words_from_no_hyphen_run: "words_from b u \<Longrightarrow> no_hyphen_run u"
proof (induction u arbitrary: b)
  case Nil
  then show ?case by simp
next
  case (Cons c u)
  then show ?case
    by (cases u) (auto split: if_splits simp: a_z0_9_not_hyphen)
qed

lemma words_from_ends:
  "words_from b u \<Longrightarrow> u \<noteq> [] \<Longrightarrow> is_a_z0_9 (last u) \<and> (\<not> b \<longrightarrow> is_a_z0_9 (hd u))"
proof (induction u arbitrary: b)
  case Nil
  then show ?case by simp
next
  case (Cons c u)
  show ?case
  proof (cases u)
    case Nil
    with Cons.prems show ?thesis by (simp split: if_splits)
  next
    case (Cons d r)
    show ?thesis
    proof (cases "is_a_z0_9 c")
      case True
      with Cons.prems(1) have "words_from True u" by simp
      from Cons.IH [OF this] Cons True show ?thesis by simp
    next
      case False
      with Cons.prems(1) have "words_from False u" and "b" by simp_all
      from Cons.IH [OF this(1)] Cons \<open>b\<close> show ?thesis by simp
    qed
  qed
qed

subsection \<open>Stripping\<close>

lemma strip_chars_split:
  "\<exists>r. dropWhile P s = strip_chars P s @ r"
proof -
  have "rev (dropWhile P s) = takeWhile P (rev (dropWhile P s)) @ dropWhile P (rev (dropWhile P s))"
    by simp
  then have "dropWhile P s = rev (dropWhile P (rev (dropWhile P s))) @ rev (takeWhile P (rev (dropWhile P s)))"
    by (metis rev_append rev_rev_ident)
  then show ?thesis by (auto simp: strip_chars_def)
qed

lemma strip_chars_last: "strip_chars P s \<noteq> [] \<Longrightarrow> \<not> P (last (strip_chars P s))"
  using hd_dropWhile [of P "rev (dropWhile P s)"]
  by (simp add: strip_chars_def last_rev)

lemma strip_chars_hd: "strip_chars P s \<noteq> [] \<Longrightarrow> \<not> P (hd (strip_chars P s))"
proof -
  assume a: "strip_chars P s \<noteq> []"
  obtain r where r: "dropWhile P s = strip_chars P s @ r"
    using strip_chars_split by blast
  with a have "hd (strip_chars P s) = hd (dropWhile P s)" by simp
  moreover from a r have "dropWhile P s \<noteq> []" by auto
  ultimately show ?thesis using hd_dropWhile [of P s] by simp
qed

lemma strip_chars_id: "s = [] \<or> (\<not> P (hd s) \<and> \<not> P (last s)) \<Longrightarrow> strip_chars P s = s"
proof (cases s)
  case Nil
  then show ?thesis by (simp add: strip_chars_def)
next
  case (Cons c cs)
  assume "s = [] \<or> (\<not> P (hd s) \<and> \<not> P (last s))"
  with Cons have h: "\<not> P c" and l: "\<not> P (last s)" by auto
  from h Cons have "dropWhile P s = s" by simp
  moreover have "hd (rev s) = last s" by (simp add: hd_rev)
  with l Cons have "dropWhile P (rev s) = rev s"
    by (cases "rev s") simp_all
  ultimately show ?thesis by (simp add: strip_chars_def)
qed

lemma strip_hyphens_shape:
  assumes "no_hyphen_run t"
  shows "strip_chars is_hyphen t = [] \<or> words_from False (strip_chars is_hyphen t)"
proof (cases "strip_chars is_hyphen t = []")
  case True
  then show ?thesis by simp
next
  case False
  obtain r where r: "dropWhile is_hyphen t = strip_chars is_hyphen t @ r"
    using strip_chars_split by blast
  from assms have "no_hyphen_run (dropWhile is_hyphen t)" by (rule no_hyphen_run_dropWhile)
  with r have "no_hyphen_run (strip_chars is_hyphen t)" by (simp add: no_hyphen_run_prefix)
  with False strip_chars_last [OF False] strip_chars_hd [OF False]
  show ?thesis by (simp add: words_from_shape)
qed


subsection \<open>The slug\<close>

lemma no_double_hyphen_match:
  "no_hyphen_run s \<Longrightarrow> rmatch (times 2 (Chr is_hyphen)) (pv, s) = []"
proof (cases s)
  case Nil
  then show ?thesis by (simp add: numeral_2_eq_2)
next
  case (Cons c cs)
  assume "no_hyphen_run s"
  with Cons show ?thesis
    by (cases cs) (simp_all add: numeral_2_eq_2)
qed

lemma sub_hyphens_id_aux:
  "no_hyphen_run u \<Longrightarrow>
     concat (map (\<lambda>t. case t of Skipped c \<Rightarrow> [c] | Matched m \<Rightarrow> ''-'')
                 (scan hyphens_2_or_more False (pv, u))) = u"
proof (induction u arbitrary: pv)
  case Nil
  then show ?case
    by (simp add: scan_end_no_match hyphens_2_or_more_def rpaths_single no_double_hyphen_match)
next
  case (Cons c u)
  from Cons.prems have "rpaths hyphens_2_or_more (pv, c # u) = []"
    by (simp add: hyphens_2_or_more_def rpaths_single no_double_hyphen_match)
  with Cons.IH [OF no_hyphen_run_tl [OF Cons.prems]] show ?case
    by (simp add: scan_no_match)
qed

lemma sub_hyphens_id: "no_hyphen_run u \<Longrightarrow> sub hyphens_2_or_more ''-'' u = u"
  by (simp add: sub_def sub_hyphens_id_aux)

lemma slug_collapse: "slug s = strip_chars is_hyphen (collapse (lower (strip s)))"
proof -
  let ?u = "strip_chars is_hyphen (collapse (lower (strip s)))"
  have "?u = [] \<or> words_from False ?u"
    by (rule strip_hyphens_shape) (rule no_hyphen_run_collapse)
  then have "no_hyphen_run ?u"
    by (auto dest: words_from_no_hyphen_run)
  then show ?thesis
    by (simp add: slug_def Let_def sub_collapse sub_hyphens_id)
qed

lemma slug_shape: "slug s = [] \<or> words_from False (slug s)"
  unfolding slug_collapse by (rule strip_hyphens_shape) (rule no_hyphen_run_collapse)

lemma collapse_id: "no_hyphen_run u \<Longrightarrow> collapse u = u"
proof (induction u rule: no_hyphen_run.induct)
  case 1
  then show ?case by simp
next
  case (2 c)
  then show ?case by (auto simp: is_hyphen_def)
next
  case (3 c d r)
  show ?case
  proof (cases "is_a_z0_9 c")
    case True
    with 3 show ?thesis by simp
  next
    case False
    with "3.prems" have c: "c = CHR ''-''" and d: "\<not> is_hyphen d" by (auto simp: is_hyphen_def)
    from "3.prems" have "no_hyphen_run (d # r)" by simp
    with d no_hyphen_run_chars [of "d # r" d] have "is_a_z0_9 d" by auto
    with 3 False c show ?thesis by simp
  qed
qed

lemma slug_fixed: "u = [] \<or> words_from False u \<Longrightarrow> slug u = u"
proof (cases "u = []")
  case True
  then show ?thesis
    by (simp add: slug_collapse strip_def strip_chars_def lower_def)
next
  case False
  assume "u = [] \<or> words_from False u"
  with False have w: "words_from False u" by simp
  from words_from_ends [OF w False] have e: "is_a_z0_9 (hd u)" "is_a_z0_9 (last u)" by simp_all
  from w have r: "no_hyphen_run u" by (rule words_from_no_hyphen_run)
  have "strip u = u"
    unfolding strip_def using e by (intro strip_chars_id) (simp add: a_z0_9_not_space)
  moreover have "lower u = u"
    unfolding lower_def
  proof (intro map_idI)
    fix x assume "x \<in> set u"
    then have "is_a_z0_9 x \<or> is_hyphen x" by (rule no_hyphen_run_chars [OF r])
    then show "lower_chr x = x" by (auto simp: lower_chr_a_z0_9 lower_chr_hyphen)
  qed
  moreover have "strip_chars is_hyphen u = u"
    using e by (intro strip_chars_id) (simp add: a_z0_9_not_hyphen)
  ultimately show ?thesis
    by (simp add: slug_collapse collapse_id [OF r])
qed

subsection \<open>The form of a slug, by the matcher\<close>

lemma star_greedy_self: "p \<in> set (star_greedy f fuel p)"
  by (cases fuel) simp_all

lemma star_greedy_step:
  "m \<in> set (f p) \<Longrightarrow> advances p m \<Longrightarrow> q \<in> set (star_greedy f fuel m) \<Longrightarrow>
     q \<in> set (star_greedy f (x # fuel) p)"
  by (cases m) force

lemma star_chr_word:
  "\<forall>c\<in>set a. P c \<Longrightarrow> length (a @ rest) \<le> length fuel \<Longrightarrow>
     (if a = [] then pv else Some (last a), rest) \<in> set (star_greedy (rmatch (Chr P)) fuel (pv, a @ rest))"
proof (induction a arbitrary: pv fuel)
  case Nil
  then show ?case by (simp add: star_greedy_self)
next
  case (Cons c a)
  from Cons.prems(2) obtain x fuel' where fuel: "fuel = x # fuel'" by (cases fuel) auto
  have "(if a = [] then Some c else Some (last a), rest)
          \<in> set (star_greedy (rmatch (Chr P)) fuel' (Some c, a @ rest))"
    using Cons.prems fuel by (intro Cons.IH) auto
  moreover have "(Some c, a @ rest) \<in> set (rmatch (Chr P) (pv, (c # a) @ rest))"
    using Cons.prems(1) by simp
  moreover have "advances (pv, (c # a) @ rest) (Some c, a @ rest)"
    by (simp add: advances_def)
  ultimately have "(if a = [] then Some c else Some (last a), rest)
          \<in> set (star_greedy (rmatch (Chr P)) fuel (pv, (c # a) @ rest))"
    unfolding fuel by (rule star_greedy_step [rotated 2])
  moreover have "(if c # a = [] then pv else Some (last (c # a)))
                 = (if a = [] then Some c else Some (last a))"
    by simp
  ultimately show ?case by (simp only:)
qed

lemma plus_word:
  assumes "a \<noteq> []" and "\<forall>c\<in>set a. P c"
  shows "(Some (last a), rest) \<in> set (rmatch (Plus (Chr P)) (pv, a @ rest))"
proof -
  from assms(1) obtain c a' where a: "a = c # a'" by (cases a) auto
  from assms(2) a have "(if a' = [] then Some c else Some (last a'), rest)
        \<in> set (star_greedy (rmatch (Chr P)) (a' @ rest) (Some c, a' @ rest))"
    by (intro star_chr_word) auto
  moreover have "(if a' = [] then Some c else Some (last a')) = Some (last a)"
    using a by simp
  moreover have "rmatch (Plus (Chr P)) (pv, a @ rest)
                 = star_greedy (rmatch (Chr P)) (a' @ rest) (Some c, a' @ rest)"
    using assms(2) a by (simp add: Plus_def)
  ultimately show ?thesis by (simp only:)
qed

lemma words_from_True_rest:
  "words_from True cs \<Longrightarrow>
     dropWhile is_a_z0_9 cs = []
     \<or> (\<exists>t. dropWhile is_a_z0_9 cs = CHR ''-'' # t \<and> words_from False t)"
  by (induction cs) (auto simp: is_hyphen_def split: if_splits)

lemma words_from_False_split:
  assumes "words_from False t"
  shows "takeWhile is_a_z0_9 t \<noteq> []
     \<and> (dropWhile is_a_z0_9 t = []
        \<or> (\<exists>t'. dropWhile is_a_z0_9 t = CHR ''-'' # t' \<and> words_from False t'))"
proof (cases t)
  case Nil
  with assms show ?thesis by simp
next
  case (Cons c cs)
  with assms have "is_a_z0_9 c" and "words_from True cs" by (simp_all split: if_splits)
  with Cons words_from_True_rest [of cs] show ?thesis by simp
qed

lemma tail_match:
  "s = [] \<or> (\<exists>t. s = CHR ''-'' # t \<and> words_from False t) \<Longrightarrow> length s \<le> length fuel \<Longrightarrow>
     \<exists>q\<in>set (star_greedy (rmatch (Seq (Chr is_hyphen) (Plus (Chr is_a_z0_9)))) fuel (pv, s)).
        snd q = []"
proof (induction s arbitrary: pv fuel rule: length_induct)
  case (1 s)
  show ?case
  proof (cases "s = []")
    case True
    then show ?thesis
      by (intro bexI [of _ "(pv, s)"]) (simp_all add: star_greedy_self)
  next
    case False
    with "1.prems"(1) obtain t where s: "s = CHR ''-'' # t" and t: "words_from False t" by auto
    from "1.prems"(2) s obtain x fuel' where fuel: "fuel = x # fuel'" by (cases fuel) auto
    let ?a = "takeWhile is_a_z0_9 t" and ?rest = "dropWhile is_a_z0_9 t"
    let ?m = "(Some (last ?a), ?rest)"
    from words_from_False_split [OF t] have a: "?a \<noteq> []"
      and rest: "?rest = [] \<or> (\<exists>t'. ?rest = CHR ''-'' # t' \<and> words_from False t')"
      by simp_all
    have "?m \<in> set (rmatch (Plus (Chr is_a_z0_9)) (Some CHR ''-'', ?a @ ?rest))"
      using a by (intro plus_word) (auto dest: set_takeWhileD)
    then have m: "?m \<in> set (rmatch (Seq (Chr is_hyphen) (Plus (Chr is_a_z0_9))) (pv, s))"
      by (simp add: s is_hyphen_def)
    have adv: "advances (pv, s) ?m"
      by (simp add: s advances_def le_imp_less_Suc length_dropWhile_le)
    have "length ?rest < length s" "length ?rest \<le> length fuel'"
      using "1.prems"(2) length_dropWhile_le [of is_a_z0_9 t] by (simp_all add: s fuel)
    with "1.IH" rest obtain q where
      "q \<in> set (star_greedy (rmatch (Seq (Chr is_hyphen) (Plus (Chr is_a_z0_9)))) fuel' ?m)"
      and q: "snd q = []"
      by blast
    with star_greedy_step
           [of ?m "rmatch (Seq (Chr is_hyphen) (Plus (Chr is_a_z0_9)))" "(pv, s)" q fuel' x, OF m adv]
    have
      "q \<in> set (star_greedy (rmatch (Seq (Chr is_hyphen) (Plus (Chr is_a_z0_9)))) fuel (pv, s))"
      unfolding fuel by blast
    with q show ?thesis by blast
  qed
qed

lemma words_fullmatch:
  assumes "words_from False u"
  shows "fullmatch slug_re u"
proof -
  let ?a = "takeWhile is_a_z0_9 u" and ?rest = "dropWhile is_a_z0_9 u"
  let ?m = "(Some (last ?a), ?rest)"
  from words_from_False_split [OF assms] have a: "?a \<noteq> []"
    and rest: "?rest = [] \<or> (\<exists>t'. ?rest = CHR ''-'' # t' \<and> words_from False t')"
    by simp_all
  have "?m \<in> set (rmatch (Plus (Chr is_a_z0_9)) (None, ?a @ ?rest))"
    using a by (intro plus_word) (auto dest: set_takeWhileD)
  then have m: "?m \<in> set (rmatch (Plus (Chr is_a_z0_9)) (None, u))" by simp
  from tail_match [OF rest, of ?rest "Some (last ?a)"] obtain q where
    "q \<in> set (rmatch (Star (Seq (Chr is_hyphen) (Plus (Chr is_a_z0_9)))) ?m)" and "snd q = []"
    by auto
  with m show ?thesis
    unfolding fullmatch_def slug_re_def list_ex_iff
    by (simp del: rmatch.simps(6) add: rmatch.simps(5) [of "Plus (Chr is_a_z0_9)"]) blast
qed


text \<open>
  C4: for every string, the slug is empty or is matched as a whole by
  \<open>[a-z0-9]+(-[a-z0-9]+)*\<close>; it is the stripped, lower-cased input with every run of
  characters outside \<open>a-z0-9\<close> made one hyphen and the hyphens at both ends removed; and the
  slug of a slug is that slug.
\<close>

theorem slug_form_and_idempotent:
  "(slug s = [] \<or> fullmatch slug_re (slug s))
   \<and> slug s = strip_chars is_hyphen (collapse (lower (strip s)))
   \<and> slug (slug s) = slug s"
  using slug_shape [of s] slug_collapse [of s] slug_fixed [of "slug s"] words_fullmatch [of "slug s"]
  by blast

theorem slug_form_and_idempotent_witness:
  "slug ''  Hello,  World!! '' = ''hello-world''
   \<and> fullmatch slug_re ''hello-world''
   \<and> slug ''hello-world'' = ''hello-world''"
proof -
  have v: "slug ''  Hello,  World!! '' = ''hello-world''" by code_simp
  from slug_form_and_idempotent [of "''  Hello,  World!! ''"]
  have "slug ''  Hello,  World!! '' = [] \<or> fullmatch slug_re (slug ''  Hello,  World!! '')"
    and "slug (slug ''  Hello,  World!! '') = slug ''  Hello,  World!! ''"
    by blast+
  then show ?thesis unfolding v by simp
qed

section \<open>Properties of the router\<close>

text \<open>
  C2: a topic whose lower-cased text contains a keyword of group 3 (java, spring) and a
  keyword of group 4 (django, python), and no keyword of groups 1 and 2, is routed to
  (swe, backend, java), wherever the keywords stand in the text.
\<close>

theorem route_java_before_python:
  assumes "any_in group3 (lower topic)" and "any_in group4 (lower topic)"
    and "\<not> any_in group1 (lower topic)" and "\<not> any_in group2 (lower topic)"
  shows "route topic = (''swe'', ''backend'', ''java'')"
  using assms by (simp add: route_def)

theorem route_java_before_python_witness:
  "any_in group3 (lower ''java python'') \<and> any_in group4 (lower ''java python'')
   \<and> \<not> any_in group1 (lower ''java python'') \<and> \<not> any_in group2 (lower ''java python'')
   \<and> route ''java python'' = (''swe'', ''backend'', ''java'')"
proof -
  have h3: "any_in group3 (lower ''java python'')" by code_simp
  have h4: "any_in group4 (lower ''java python'')" by code_simp
  have h1: "\<not> any_in group1 (lower ''java python'')" by code_simp
  have h2: "\<not> any_in group2 (lower ''java python'')" by code_simp
  from route_java_before_python [OF h3 h4 h1 h2] h1 h2 h3 h4 show ?thesis by simp
qed

text \<open>
  C8: the router is a function of the topic text alone. It sends "Learning Django REST"
  to (swe, backend, python), "Kubernetes CI/CD pipeline" to (swe, devops, bash) and
  "Fine-tuning a transformer" to (ai, llms, python), and every text whose lower-cased form
  contains no keyword of any of the seven groups to the fallback (swe, misc, python).
\<close>

theorem route_examples_and_fallback:
  "route ''Learning Django REST'' = (''swe'', ''backend'', ''python'')
   \<and> route ''Kubernetes CI/CD pipeline'' = (''swe'', ''devops'', ''bash'')
   \<and> route ''Fine-tuning a transformer'' = (''ai'', ''llms'', ''python'')
   \<and> (\<forall>topic. \<not> any_in group1 (lower topic) \<and> \<not> any_in group2 (lower topic)
          \<and> \<not> any_in group3 (lower topic) \<and> \<not> any_in group4 (lower topic)
          \<and> \<not> any_in group5 (lower topic) \<and> \<not> any_in group6 (lower topic)
          \<and> \<not> any_in group7 (lower topic)
        \<longrightarrow> route topic = (''swe'', ''misc'', ''python''))"
proof -
  have a: "route ''Learning Django REST'' = (''swe'', ''backend'', ''python'')"
    by code_simp
  have b: "route ''Kubernetes CI/CD pipeline'' = (''swe'', ''devops'', ''bash'')"
    by code_simp
  have c: "route ''Fine-tuning a transformer'' = (''ai'', ''llms'', ''python'')"
    by code_simp
  have d: "route topic = (''swe'', ''misc'', ''python'')"
    if "\<not> any_in group1 (lower topic)" "\<not> any_in group2 (lower topic)"
       "\<not> any_in group3 (lower topic)" "\<not> any_in group4 (lower topic)"
       "\<not> any_in group5 (lower topic)" "\<not> any_in group6 (lower topic)"
       "\<not> any_in group7 (lower topic)" for topic
    using that by (simp add: route_def)
  from a b c d show ?thesis by blast
qed

theorem route_examples_and_fallback_witness:
  "\<not> any_in (group1 @ group2 @ group3 @ group4 @ group5 @ group6 @ group7)
        (lower ''something unrelated'')
   \<and> route ''something unrelated'' = (''swe'', ''misc'', ''python'')"
proof -
  have h: "\<not> any_in (group1 @ group2 @ group3 @ group4 @ group5 @ group6 @ group7)
             (lower ''something unrelated'')"
    by code_simp
  then have "\<not> any_in group1 (lower ''something unrelated'')"
    "\<not> any_in group2 (lower ''something unrelated'')"
    "\<not> any_in group3 (lower ''something unrelated'')"
    "\<not> any_in group4 (lower ''something unrelated'')"
    "\<not> any_in group5 (lower ''something unrelated'')"
    "\<not> any_in group6 (lower ''something unrelated'')"
    "\<not> any_in group7 (lower ''something unrelated'')"
    by (simp_all add: any_in_def)
  with route_examples_and_fallback have "route ''something unrelated'' = (''swe'', ''misc'', ''python'')"
    by blast
  with h show ?thesis by simp
qed

section \<open>Properties of the file system and of the Topic Materializer\<close>

subsection \<open>File system operations\<close>

lemma andthen_Inr: "andthen m f = Inr y \<longleftrightarrow> (\<exists>x. m = Inr x \<and> f x = Inr y)"
  by (cases m) (simp_all add: andthen_def)

lemma map_of_fs_put: "map_of (fs_put p n fs) = (map_of fs)(p \<mapsto> n)"
  by (induction fs) (auto simp: fun_eq_iff)

lemma lookup_fs_put:
  "lookup fs p \<noteq> Some Dir \<Longrightarrow>
   lookup (fs_put p n fs) q = (if q = p then Some n else lookup fs q)"
  by (auto simp: lookup_def map_of_fs_put split: if_splits)

lemma os_mkdir_Inr:
  "os_mkdir fs p = Inr fs' \<Longrightarrow>
     fs' = fs_put p Dir fs \<and> lookup fs p = None \<and> lookup fs (parent p) = Some Dir"
  by (auto simp: os_mkdir_def split: option.splits node.splits)

lemma mkdir_unfold:
  "mkdir parents exist_ok fs p = Inr fs' \<Longrightarrow>
    (case os_mkdir fs p of
        Inr fs' \<Rightarrow> Inr fs'
      | Inl e \<Rightarrow>
          if e = FileNotFoundError then
            (if \<not> parents \<or> parent p = p then Inl e
             else (case mkdir True True fs (parent p) of
                     Inl e' \<Rightarrow> Inl e'
                   | Inr fs' \<Rightarrow> mkdir False exist_ok fs' p))
          else if \<not> exist_ok \<or> \<not> is_dir fs p then Inl e
          else Inr fs) = Inr fs'"
  by (subst (asm) mkdir.simps) simp

lemma mkdir_Inr:
  assumes "mkdir parents exist_ok fs p = Inr fs'"
  shows "os_mkdir fs p = Inr fs'
     \<or> (\<exists>fs1. os_mkdir fs p = Inl FileNotFoundError \<and> \<not> (\<not> parents \<or> parent p = p)
            \<and> mkdir True True fs (parent p) = Inr fs1 \<and> mkdir False exist_ok fs1 p = Inr fs')
     \<or> (\<exists>e. os_mkdir fs p = Inl e \<and> e \<noteq> FileNotFoundError \<and> is_dir fs p \<and> fs' = fs)"
proof (cases "os_mkdir fs p")
  case (Inr a)
  with mkdir_unfold [OF assms] show ?thesis by simp
next
  case (Inl e)
  show ?thesis
  proof (cases "e = FileNotFoundError")
    case True
    with Inl mkdir_unfold [OF assms] show ?thesis
      by (cases "mkdir True True fs (parent p)") (simp_all split: if_splits)
  next
    case False
    with Inl mkdir_unfold [OF assms] show ?thesis
      by (simp split: if_splits)
  qed
qed

lemma mkdir_cases:
  assumes "mkdir parents exist_ok fs p = Inr fs'"
  obtains (made) "os_mkdir fs p = Inr fs'"
  | (via_parent) fs1 where "os_mkdir fs p = Inl FileNotFoundError" "\<not> (\<not> parents \<or> parent p = p)"
      "mkdir True True fs (parent p) = Inr fs1" "mkdir False exist_ok fs1 p = Inr fs'"
  | (there) e where "os_mkdir fs p = Inl e" "e \<noteq> FileNotFoundError" "is_dir fs p" "fs' = fs"
  using mkdir_Inr [OF assms] by blast

lemma mkdir_is_dir: "mkdir parents exist_ok fs p = Inr fs' \<Longrightarrow> is_dir fs' p"
proof (induction parents exist_ok fs p arbitrary: fs' rule: mkdir.induct)
  case (1 parents exist_ok fs p)
  from "1.prems" show ?case
  proof (cases rule: mkdir_cases)
    case made
    then show ?thesis
      by (auto dest!: os_mkdir_Inr simp: is_dir_def lookup_fs_put)
  next
    case (via_parent fs1)
    from "1.IH"(2) [OF via_parent(1) _ via_parent(2) via_parent(3) via_parent(4)] show ?thesis by simp
  next
    case (there e)
    then show ?thesis by simp
  qed
qed

lemma mkdir_keeps:
  "mkdir parents exist_ok fs p = Inr fs' \<Longrightarrow> lookup fs q = Some n \<Longrightarrow> lookup fs' q = Some n"
proof (induction parents exist_ok fs p arbitrary: fs' rule: mkdir.induct)
  case (1 parents exist_ok fs p)
  from "1.prems"(1) show ?case
  proof (cases rule: mkdir_cases)
    case made
    with "1.prems"(2) show ?thesis
      by (auto dest!: os_mkdir_Inr simp: lookup_fs_put)
  next
    case (via_parent fs1)
    from "1.IH"(1) [OF via_parent(1) _ via_parent(2) via_parent(3) "1.prems"(2)]
    have "lookup fs1 q = Some n" by simp
    from "1.IH"(2) [OF via_parent(1) _ via_parent(2) via_parent(3) via_parent(4) this] show ?thesis by simp
  next
    case (there e)
    with "1.prems"(2) show ?thesis by simp
  qed
qed

lemma length_parent: "length (parent p) \<le> length p"
  by (simp add: parent_def)

lemma mkdir_frame:
  "mkdir parents exist_ok fs p = Inr fs' \<Longrightarrow> length p < length q \<Longrightarrow> lookup fs' q = lookup fs q"
proof (induction parents exist_ok fs p arbitrary: fs' rule: mkdir.induct)
  case (1 parents exist_ok fs p)
  from "1.prems"(1) show ?case
  proof (cases rule: mkdir_cases)
    case made
    with "1.prems"(2) show ?thesis
      by (auto dest!: os_mkdir_Inr simp: lookup_fs_put)
  next
    case (via_parent fs1)
    from "1.prems"(2) length_parent [of p] have l: "length (parent p) < length q" by simp
    from "1.IH"(1) [OF via_parent(1) _ via_parent(2) via_parent(3) l]
    have "lookup fs1 q = lookup fs q" by simp
    with "1.IH"(2) [OF via_parent(1) _ via_parent(2) via_parent(3) via_parent(4) "1.prems"(2)]
    show ?thesis by simp
  next
    case (there e)
    then show ?thesis by simp
  qed
qed

lemma mkdir_existing:
  "is_dir fs p \<Longrightarrow> lookup fs (parent p) \<noteq> None \<Longrightarrow> mkdir parents True fs p = Inr fs"
  by (subst mkdir.simps) (auto simp: os_mkdir_def is_dir_def split: option.splits node.splits)

lemma touch_cases:
  assumes "touch fs p = Inr fs'"
  obtains (there) "exists fs p" "fs' = fs"
  | (made) "lookup fs p = None" "fs' = fs_put p (File []) fs"
  using assms by (auto simp: touch_def exists_def split: if_splits option.splits node.splits)

lemma touch_exists: "touch fs p = Inr fs' \<Longrightarrow> exists fs' p"
  by (erule touch_cases) (auto simp: exists_def lookup_fs_put)

lemma touch_keeps: "touch fs p = Inr fs' \<Longrightarrow> lookup fs q = Some n \<Longrightarrow> lookup fs' q = Some n"
  by (erule touch_cases) (auto simp: lookup_fs_put)

lemma touch_frame: "touch fs p = Inr fs' \<Longrightarrow> q \<noteq> p \<Longrightarrow> lookup fs' q = lookup fs q"
  by (erule touch_cases) (auto simp: lookup_fs_put)

lemma touch_existing: "exists fs p \<Longrightarrow> touch fs p = Inr fs"
  by (simp add: touch_def)

lemma write_text_new:
  "write_text fs p d = Inr fs' \<Longrightarrow> lookup fs p = None \<Longrightarrow>
     lookup fs' q = (if q = p then Some (File d) else lookup fs q)"
  by (auto simp: write_text_def lookup_fs_put split: option.splits node.splits)


subsection \<open>Paths\<close>

lemma pjoin_examples [simp]: "pjoin p ''examples'' = p @ [''examples'']"
  and pjoin_gitkeep [simp]: "pjoin p ''.gitkeep'' = p @ [''.gitkeep'']"
  and pjoin_readme [simp]: "pjoin p ''README.md'' = p @ [''README.md'']"
  and pjoin_index [simp]: "pjoin p ''INDEX.md'' = p @ [''INDEX.md'']"
  by (simp_all add: pjoin_def segments_def)

lemma example_ext_cases:
  "example_ext lang = ''py'' \<or> example_ext lang = ''ts'' \<or> example_ext lang = ''js''
   \<or> example_ext lang = ''sh'' \<or> example_ext lang = ''txt''"
  by (simp add: example_ext_def)

lemma pjoin_main [simp]:
  "pjoin p (''main.'' @ example_ext lang) = p @ [''main.'' @ example_ext lang]"
  using example_ext_cases [of lang]
  by (auto simp: pjoin_def segments_def)

lemma parent_snoc: "c \<noteq> ''/'' \<Longrightarrow> c \<noteq> ''//'' \<Longrightarrow> parent (p @ [c]) = p"
  by (auto simp: parent_def is_anchor_def)

subsection \<open>The Topic Materializer\<close>

lemma add_topic_steps:
  assumes "add_topic dedent today ROOT area0 group0 topic lang fs = Inr fs'"
  obtains fs1 fs2 fs3 fs4 where
    "(if \<not> exists fs (topic_dir ROOT area0 group0 topic)
      then mkdir True True fs (topic_dir ROOT area0 group0 topic) else Inr fs) = Inr fs1"
    "mkdir False True fs1 (topic_dir ROOT area0 group0 topic @ [''examples'']) = Inr fs2"
    "touch fs2 (topic_dir ROOT area0 group0 topic @ [''.gitkeep'']) = Inr fs3"
    "(if \<not> exists fs3 (readme_path ROOT area0 group0 topic)
      then write_text fs3 (readme_path ROOT area0 group0 topic)
             (readme_stub dedent today topic (lower area0) (lower group0))
      else Inr fs3) = Inr fs4"
    "(if \<not> exists fs4 (example_path ROOT area0 group0 topic (example_ext lang))
      then write_text fs4 (example_path ROOT area0 group0 topic (example_ext lang)) (example_code lang)
      else Inr fs4) = Inr fs'"
  using assms
  unfolding add_topic_def Let_def andthen_Inr topic_dir_def [symmetric]
    readme_path_def example_path_def pjoin_examples pjoin_gitkeep pjoin_readme
  by blast


lemma gated_mkdir:
  assumes "(if \<not> exists fs p then mkdir parents exist_ok fs p else Inr fs) = Inr fs'"
  shows "exists fs' p" and "lookup fs q = Some n \<Longrightarrow> lookup fs' q = Some n"
    and "length p < length q \<Longrightarrow> lookup fs' q = lookup fs q"
  using assms
  by (auto split: if_splits dest: mkdir_is_dir mkdir_keeps mkdir_frame simp: is_dir_def exists_def)

lemma gated_write:
  assumes "(if \<not> exists fs p then write_text fs p d else Inr fs) = Inr fs'"
  shows "exists fs' p" and "lookup fs q = Some n \<Longrightarrow> lookup fs' q = Some n"
    and "q \<noteq> p \<Longrightarrow> lookup fs' q = lookup fs q"
    and "\<not> exists fs p \<Longrightarrow> lookup fs' p = Some (File d)"
  using assms
  by (auto split: if_splits simp: exists_def write_text_new)

lemma add_topic_keeps:
  assumes "add_topic dedent today ROOT area0 group0 topic lang fs = Inr fs'"
    and "lookup fs q = Some n"
  shows "lookup fs' q = Some n"
proof -
  from assms(1) obtain fs1 fs2 fs3 fs4 where
    s1: "(if \<not> exists fs (topic_dir ROOT area0 group0 topic)
      then mkdir True True fs (topic_dir ROOT area0 group0 topic) else Inr fs) = Inr fs1" and
    s2: "mkdir False True fs1 (topic_dir ROOT area0 group0 topic @ [''examples'']) = Inr fs2" and
    s3: "touch fs2 (topic_dir ROOT area0 group0 topic @ [''.gitkeep'']) = Inr fs3" and
    s4: "(if \<not> exists fs3 (readme_path ROOT area0 group0 topic)
      then write_text fs3 (readme_path ROOT area0 group0 topic)
             (readme_stub dedent today topic (lower area0) (lower group0))
      else Inr fs3) = Inr fs4" and
    s5: "(if \<not> exists fs4 (example_path ROOT area0 group0 topic (example_ext lang))
      then write_text fs4 (example_path ROOT area0 group0 topic (example_ext lang)) (example_code lang)
      else Inr fs4) = Inr fs'"
    by (rule add_topic_steps)
  from gated_mkdir(2) [OF s1 assms(2)] have "lookup fs1 q = Some n" .
  from mkdir_keeps [OF s2 this] have "lookup fs2 q = Some n" .
  from touch_keeps [OF s3 this] have "lookup fs3 q = Some n" .
  from gated_write(2) [OF s4 this] have "lookup fs4 q = Some n" .
  from gated_write(2) [OF s5 this] show ?thesis .
qed

lemma exists_keeps:
  "(\<And>q n. lookup fs q = Some n \<Longrightarrow> lookup fs' q = Some n) \<Longrightarrow> exists fs p \<Longrightarrow> exists fs' p"
  by (auto simp: exists_def)

lemma add_topic_again:
  assumes "add_topic dedent today ROOT area0 group0 topic lang fs = Inr fs'"
  shows "add_topic dedent' today' ROOT area0 group0 topic lang fs' = Inr fs'"
proof -
  let ?dest = "topic_dir ROOT area0 group0 topic"
  from assms obtain fs1 fs2 fs3 fs4 where
    s1: "(if \<not> exists fs ?dest then mkdir True True fs ?dest else Inr fs) = Inr fs1" and
    s2: "mkdir False True fs1 (?dest @ [''examples'']) = Inr fs2" and
    s3: "touch fs2 (?dest @ [''.gitkeep'']) = Inr fs3" and
    s4: "(if \<not> exists fs3 (readme_path ROOT area0 group0 topic)
      then write_text fs3 (readme_path ROOT area0 group0 topic)
             (readme_stub dedent today topic (lower area0) (lower group0))
      else Inr fs3) = Inr fs4" and
    s5: "(if \<not> exists fs4 (example_path ROOT area0 group0 topic (example_ext lang))
      then write_text fs4 (example_path ROOT area0 group0 topic (example_ext lang)) (example_code lang)
      else Inr fs4) = Inr fs'"
    by (rule add_topic_steps)
  have k2: "lookup fs1 q = Some n \<Longrightarrow> lookup fs' q = Some n" for q n
    using mkdir_keeps [OF s2] touch_keeps [OF s3] gated_write(2) [OF s4] gated_write(2) [OF s5]
    by blast
  have k3: "lookup fs2 q = Some n \<Longrightarrow> lookup fs' q = Some n" for q n
    using touch_keeps [OF s3] gated_write(2) [OF s4] gated_write(2) [OF s5] by blast
  have k4: "lookup fs3 q = Some n \<Longrightarrow> lookup fs' q = Some n" for q n
    using gated_write(2) [OF s4] gated_write(2) [OF s5] by blast
  have k5: "lookup fs4 q = Some n \<Longrightarrow> lookup fs' q = Some n" for q n
    using gated_write(2) [OF s5] by blast
  have e1: "exists fs' ?dest"
    using gated_mkdir(1) [OF s1] k2 by (auto simp: exists_def)
  have "is_dir fs' (?dest @ [''examples''])"
    using mkdir_is_dir [OF s2] k3 by (auto simp: is_dir_def)
  moreover have "parent (?dest @ [''examples'']) = ?dest"
    by (simp add: parent_snoc)
  ultimately have e2: "mkdir False True fs' (?dest @ [''examples'']) = Inr fs'"
    using e1 by (intro mkdir_existing) (auto simp: exists_def)
  have e3: "touch fs' (?dest @ [''.gitkeep'']) = Inr fs'"
    using touch_exists [OF s3] k4 by (intro touch_existing) (auto simp: exists_def)
  have e4: "exists fs' (readme_path ROOT area0 group0 topic)"
    using gated_write(1) [OF s4] k5 by (auto simp: exists_def)
  have e5: "exists fs' (example_path ROOT area0 group0 topic (example_ext lang))"
    using gated_write(1) [OF s5] by simp
  show ?thesis
    unfolding add_topic_def Let_def topic_dir_def [symmetric] pjoin_examples pjoin_gitkeep
    using e1 e2 e3 e4 e5
    by (simp add: andthen_def readme_path_def example_path_def)
qed


lemma pjoin_main_txt [simp]: "pjoin p ''main.txt'' = p @ [''main.txt'']"
  and pjoin_main_java [simp]: "pjoin p ''main.java'' = p @ [''main.java'']"
  by (simp_all add: pjoin_def segments_def)

text \<open>
  C3: when \<open>add_topic\<close> has run, running it again with the same arguments (on whatever day)
  leaves the whole file system, and so the directory of the topic, as the first run left
  it; and a run alters nothing that was there before it: a README or an example file that
  exists keeps its text, because each write comes after a test that the path is free.
\<close>

theorem add_topic_twice_same_contents:
  assumes "add_topic dedent today ROOT area grp topic lang fs = Inr fs1"
  shows "add_topic dedent today' ROOT area grp topic lang fs1 = Inr fs1
         \<and> (\<forall>q n. lookup fs q = Some n \<longrightarrow> lookup fs1 q = Some n)"
  using add_topic_again [OF assms] add_topic_keeps [OF assms] by blast

theorem add_topic_twice_same_contents_witness:
  "\<not> isl (add_topic (\<lambda>s. s) ''2025-06-01'' [''knowledge''] ''swe'' ''backend'' ''Spring Boot'' ''java''
            tree_with_readme)
   \<and> add_topic (\<lambda>s. s) ''2025-06-02'' [''knowledge''] ''swe'' ''backend'' ''Spring Boot'' ''java''
        (projr (add_topic (\<lambda>s. s) ''2025-06-01'' [''knowledge''] ''swe'' ''backend'' ''Spring Boot''
                  ''java'' tree_with_readme))
      = Inr (projr (add_topic (\<lambda>s. s) ''2025-06-01'' [''knowledge''] ''swe'' ''backend''
                      ''Spring Boot'' ''java'' tree_with_readme))
   \<and> lookup tree_with_readme [''knowledge'', ''swe'', ''backend'', ''spring-boot'', ''README.md'']
      = Some (File ''my notes'')
   \<and> lookup (projr (add_topic (\<lambda>s. s) ''2025-06-01'' [''knowledge''] ''swe'' ''backend''
                      ''Spring Boot'' ''java'' tree_with_readme))
        [''knowledge'', ''swe'', ''backend'', ''spring-boot'', ''README.md'']
      = Some (File ''my notes'')"
proof -
  let ?first = "add_topic (\<lambda>s. s) ''2025-06-01'' [''knowledge''] ''swe'' ''backend'' ''Spring Boot''
                  ''java'' tree_with_readme"
  have a: "\<not> isl ?first" by code_simp
  then have b: "?first = Inr (projr ?first)" by (cases ?first) auto
  have c: "lookup tree_with_readme
             [''knowledge'', ''swe'', ''backend'', ''spring-boot'', ''README.md'']
           = Some (File ''my notes'')"
    by code_simp
  from add_topic_twice_same_contents [OF b, of "''2025-06-02''"] a c show ?thesis by blast
qed

text \<open>
  C10: a topic that the router sends to the language \<open>java\<close> (keyword group 3) is given the
  extension \<open>txt\<close>, since the table of extensions has no entry for \<open>java\<close>. Where the
  materializer succeeds and \<open>examples/main.txt\<close> was not there, that file is made with the
  placeholder line as its text; nothing is made or changed at \<open>examples/main.java\<close>.
\<close>

theorem java_topic_example_is_txt_placeholder:
  assumes "route topic = (area, grp, ''java'')"
  shows "example_ext ''java'' = ''txt''
     \<and> (\<forall>dedent today ROOT fs fs'.
           add_topic dedent today ROOT area grp topic ''java'' fs = Inr fs'
           \<and> \<not> exists fs (example_path ROOT area grp topic ''txt'')
           \<longrightarrow> lookup fs' (example_path ROOT area grp topic ''txt'')
                 = Some (File (''Example placeholder.'' @ [newline]))
               \<and> lookup fs' (example_path ROOT area grp topic ''java'')
                 = lookup fs (example_path ROOT area grp topic ''java''))"
proof -
  have ext: "example_ext ''java'' = ''txt''" and body: "example_code ''java'' = ''Example placeholder.'' @ [newline]"
    by (simp_all add: example_ext_def example_code_def)
  have "lookup fs' (example_path ROOT area grp topic ''txt'')
          = Some (File (''Example placeholder.'' @ [newline]))
        \<and> lookup fs' (example_path ROOT area grp topic ''java'')
          = lookup fs (example_path ROOT area grp topic ''java'')"
    if run: "add_topic dedent today ROOT area grp topic ''java'' fs = Inr fs'"
      and free: "\<not> exists fs (example_path ROOT area grp topic ''txt'')"
    for dedent today ROOT fs fs'
  proof -
    let ?dest = "topic_dir ROOT area grp topic"
    from run obtain fs1 fs2 fs3 fs4 where
      s1: "(if \<not> exists fs ?dest then mkdir True True fs ?dest else Inr fs) = Inr fs1" and
      s2: "mkdir False True fs1 (?dest @ [''examples'']) = Inr fs2" and
      s3: "touch fs2 (?dest @ [''.gitkeep'']) = Inr fs3" and
      s4: "(if \<not> exists fs3 (readme_path ROOT area grp topic)
        then write_text fs3 (readme_path ROOT area grp topic)
               (readme_stub dedent today topic (lower area) (lower grp))
        else Inr fs3) = Inr fs4" and
      s5: "(if \<not> exists fs4 (example_path ROOT area grp topic (example_ext ''java''))
        then write_text fs4 (example_path ROOT area grp topic (example_ext ''java''))
               (example_code ''java'')
        else Inr fs4) = Inr fs'"
      by (rule add_topic_steps)
    have untouched: "lookup fs4 (?dest @ [''examples'', m]) = lookup fs (?dest @ [''examples'', m])" for m
    proof -
      have "lookup fs1 (?dest @ [''examples'', m]) = lookup fs (?dest @ [''examples'', m])"
        using gated_mkdir(3) [OF s1] by simp
      moreover have "lookup fs2 (?dest @ [''examples'', m]) = lookup fs1 (?dest @ [''examples'', m])"
        using mkdir_frame [OF s2] by simp
      moreover have "lookup fs3 (?dest @ [''examples'', m]) = lookup fs2 (?dest @ [''examples'', m])"
        using touch_frame [OF s3] by simp
      moreover have "lookup fs4 (?dest @ [''examples'', m]) = lookup fs3 (?dest @ [''examples'', m])"
        using gated_write(3) [OF s4] by (simp add: readme_path_def)
      ultimately show ?thesis by simp
    qed
    have p_txt: "example_path ROOT area grp topic ''txt'' = ?dest @ [''examples'', ''main.txt'']"
      and p_java: "example_path ROOT area grp topic ''java'' = ?dest @ [''examples'', ''main.java'']"
      by (simp_all add: example_path_def)
    from free untouched [of "''main.txt''"] have "\<not> exists fs4 (example_path ROOT area grp topic ''txt'')"
      by (simp add: p_txt exists_def)
    with gated_write(4) [OF s5] have "lookup fs' (example_path ROOT area grp topic ''txt'')
        = Some (File (''Example placeholder.'' @ [newline]))"
      by (simp add: ext body)
    moreover have "lookup fs' (example_path ROOT area grp topic ''java'')
        = lookup fs (example_path ROOT area grp topic ''java'')"
      using gated_write(3) [OF s5, of "example_path ROOT area grp topic ''java''"]
        untouched [of "''main.java''"]
      by (simp add: ext p_txt p_java)
    ultimately show ?thesis by simp
  qed
  with ext show ?thesis by blast
qed

theorem java_topic_example_is_txt_placeholder_witness:
  "route ''Spring Boot'' = (''swe'', ''backend'', ''java'')
   \<and> \<not> isl (add_topic (\<lambda>s. s) ''2025-06-01'' [''knowledge''] ''swe'' ''backend'' ''Spring Boot''
              ''java'' [])
   \<and> \<not> exists [] (example_path [''knowledge''] ''swe'' ''backend'' ''Spring Boot'' ''txt'')
   \<and> lookup (projr (add_topic (\<lambda>s. s) ''2025-06-01'' [''knowledge''] ''swe'' ''backend''
                      ''Spring Boot'' ''java'' []))
        (example_path [''knowledge''] ''swe'' ''backend'' ''Spring Boot'' ''txt'')
      = Some (File (''Example placeholder.'' @ [newline]))"
proof -
  let ?run = "add_topic (\<lambda>s. s) ''2025-06-01'' [''knowledge''] ''swe'' ''backend'' ''Spring Boot''
                ''java'' []"
  have r: "route ''Spring Boot'' = (''swe'', ''backend'', ''java'')" by code_simp
  have a: "\<not> isl ?run" by code_simp
  then have b: "?run = Inr (projr ?run)" by (cases ?run) auto
  have c: "\<not> exists [] (example_path [''knowledge''] ''swe'' ''backend'' ''Spring Boot'' ''txt'')"
    by code_simp
  from java_topic_example_is_txt_placeholder [OF r] b c
  have "lookup (projr ?run) (example_path [''knowledge''] ''swe'' ''backend'' ''Spring Boot'' ''txt'')
          = Some (File (''Example placeholder.'' @ [newline]))"
    by blast
  with r a c show ?thesis by blast
qed

section \<open>Properties of the Tree Scaffolder\<close>

lemma ensure_tree_topics_keeps:
  "ensure_tree_topics base ts fs = Inr fs' \<Longrightarrow> lookup fs q = Some n \<Longrightarrow> lookup fs' q = Some n"
proof (induction ts arbitrary: fs)
  case Nil
  then show ?case by simp
next
  case (Cons t ts)
  from Cons.prems(1) obtain fs1 fs2 where
    a: "mkdir True True fs (pjoin base t) = Inr fs1" and
    b: "touch fs1 (pjoin (pjoin base t) ''.gitkeep'') = Inr fs2" and
    c: "ensure_tree_topics base ts fs2 = Inr fs'"
    by (auto simp: andthen_Inr simp del: pjoin_gitkeep)
  from touch_keeps [OF b mkdir_keeps [OF a Cons.prems(2)]] have "lookup fs2 q = Some n" .
  from Cons.IH [OF c this] show ?case .
qed

lemma ensure_tree_groups_keeps:
  "ensure_tree_groups ROOT area gs fs = Inr fs' \<Longrightarrow> lookup fs q = Some n \<Longrightarrow> lookup fs' q = Some n"
proof (induction gs arbitrary: fs)
  case Nil
  then show ?case by simp
next
  case (Cons g gs)
  obtain grp tops where g: "g = (grp, tops)" by (cases g)
  from Cons.prems(1) obtain fs1 fs2 fs3 where
    a: "mkdir True True fs (pjoin (pjoin ROOT area) grp) = Inr fs1" and
    b: "touch fs1 (pjoin (pjoin (pjoin ROOT area) grp) ''.gitkeep'') = Inr fs2" and
    c: "ensure_tree_topics (pjoin (pjoin ROOT area) grp) tops fs2 = Inr fs3" and
    d: "ensure_tree_groups ROOT area gs fs3 = Inr fs'"
    by (auto simp: g andthen_Inr Let_def simp del: pjoin_gitkeep)
  from ensure_tree_topics_keeps [OF c touch_keeps [OF b mkdir_keeps [OF a Cons.prems(2)]]]
  have "lookup fs3 q = Some n" .
  from Cons.IH [OF d this] show ?case .
qed

lemma ensure_tree_groups_dirs:
  "ensure_tree_groups ROOT area gs fs = Inr fs' \<Longrightarrow> (grp, tops) \<in> set gs \<Longrightarrow>
     is_dir fs' (pjoin (pjoin ROOT area) grp)"
proof (induction gs arbitrary: fs)
  case Nil
  then show ?case by simp
next
  case (Cons g gs)
  obtain grp0 tops0 where g: "g = (grp0, tops0)" by (cases g)
  from Cons.prems(1) obtain fs1 fs2 fs3 where
    a: "mkdir True True fs (pjoin (pjoin ROOT area) grp0) = Inr fs1" and
    b: "touch fs1 (pjoin (pjoin (pjoin ROOT area) grp0) ''.gitkeep'') = Inr fs2" and
    c: "ensure_tree_topics (pjoin (pjoin ROOT area) grp0) tops0 fs2 = Inr fs3" and
    d: "ensure_tree_groups ROOT area gs fs3 = Inr fs'"
    by (auto simp: g andthen_Inr Let_def simp del: pjoin_gitkeep)
  show ?case
  proof (cases "(grp, tops) \<in> set gs")
    case True
    from Cons.IH [OF d True] show ?thesis .
  next
    case False
    with Cons.prems(2) g have "grp = grp0" by simp
    with mkdir_is_dir [OF a] have "lookup fs1 (pjoin (pjoin ROOT area) grp) = Some Dir"
      by (simp add: is_dir_def)
    from ensure_tree_groups_keeps [OF d ensure_tree_topics_keeps [OF c touch_keeps [OF b this]]]
    show ?thesis by (simp add: is_dir_def)
  qed
qed

lemma ensure_tree_areas_keeps:
  "ensure_tree_areas ROOT cats fs = Inr fs' \<Longrightarrow> lookup fs q = Some n \<Longrightarrow> lookup fs' q = Some n"
proof (induction cats arbitrary: fs)
  case Nil
  then show ?case by simp
next
  case (Cons a cats)
  obtain area gs where g: "a = (area, gs)" by (cases a)
  from Cons.prems(1) obtain fs1 where
    a: "ensure_tree_groups ROOT area gs fs = Inr fs1" and
    b: "ensure_tree_areas ROOT cats fs1 = Inr fs'"
    by (auto simp: g andthen_Inr)
  from Cons.IH [OF b ensure_tree_groups_keeps [OF a Cons.prems(2)]] show ?case .
qed

lemma ensure_tree_areas_dirs:
  "ensure_tree_areas ROOT cats fs = Inr fs' \<Longrightarrow> (area, gs) \<in> set cats \<Longrightarrow> (grp, tops) \<in> set gs \<Longrightarrow>
     is_dir fs' (pjoin (pjoin ROOT area) grp)"
proof (induction cats arbitrary: fs)
  case Nil
  then show ?case by simp
next
  case (Cons a cats)
  obtain area0 gs0 where g: "a = (area0, gs0)" by (cases a)
  from Cons.prems(1) obtain fs1 where
    a: "ensure_tree_groups ROOT area0 gs0 fs = Inr fs1" and
    b: "ensure_tree_areas ROOT cats fs1 = Inr fs'"
    by (auto simp: g andthen_Inr)
  show ?case
  proof (cases "(area, gs) \<in> set cats")
    case True
    from Cons.IH [OF b True Cons.prems(3)] show ?thesis .
  next
    case False
    with Cons.prems(2) g have e: "area = area0" "gs = gs0" by simp_all
    from ensure_tree_groups_dirs [OF a] Cons.prems(3) e
    have "lookup fs1 (pjoin (pjoin ROOT area) grp) = Some Dir" by (simp add: is_dir_def)
    from ensure_tree_areas_keeps [OF b this] show ?thesis by (simp add: is_dir_def)
  qed
qed

lemma ensure_tree_dirs:
  assumes "ensure_tree ROOT fs = Inr fs'" and "(area, gs) \<in> set CATEGORIES" and "(grp, tops) \<in> set gs"
  shows "is_dir fs' (pjoin (pjoin ROOT area) grp)"
proof -
  from assms(1) obtain fs1 where
    a: "ensure_tree_areas ROOT CATEGORIES fs = Inr fs1" and
    b: "touch fs1 (ROOT @ [''INDEX.md'']) = Inr fs'"
    by (auto simp: ensure_tree_def andthen_Inr)
  from ensure_tree_areas_dirs [OF a assms(2,3)]
  have "lookup fs1 (pjoin (pjoin ROOT area) grp) = Some Dir" by (simp add: is_dir_def)
  from touch_keeps [OF b this] show ?thesis by (simp add: is_dir_def)
qed


lemma pjoin_plain: "plain n \<Longrightarrow> pjoin p n = p @ [n]"
  by (simp add: plain_def pjoin_def)

lemma clean_snoc: "clean p \<Longrightarrow> plain n \<Longrightarrow> clean (p @ [n])"
  by (auto simp: clean_def plain_def)

lemma clean_parent: "clean p \<Longrightarrow> clean (parent p)"
  by (auto simp: clean_def parent_def dest: in_set_butlastD)

lemma file_not_clean:
  assumes "only_gitkeep_files fs" and "lookup fs q = Some (File t)"
  shows "\<not> clean q"
proof -
  from assms have "q \<noteq> []" "last q = ''.gitkeep''" by (auto simp: only_gitkeep_files_def)
  then have "''.gitkeep'' \<in> set q" using last_in_set by fastforce
  then show ?thesis by (simp add: clean_def)
qed

lemma only_gitkeep_put_Dir:
  "only_gitkeep_files fs \<Longrightarrow> lookup fs p = None \<Longrightarrow> only_gitkeep_files (fs_put p Dir fs)"
  by (auto simp: only_gitkeep_files_def lookup_fs_put split: if_splits)

lemma only_gitkeep_put_gitkeep:
  "only_gitkeep_files fs \<Longrightarrow> lookup fs (p @ [''.gitkeep'']) = None \<Longrightarrow>
     only_gitkeep_files (fs_put (p @ [''.gitkeep'']) (File []) fs)"
  by (auto simp: only_gitkeep_files_def lookup_fs_put split: if_splits)

lemma mkdir_succeeds:
  "parents \<or> lookup fs (parent p) \<noteq> None \<Longrightarrow> only_gitkeep_files fs \<Longrightarrow> clean p \<Longrightarrow>
     \<exists>fs'. mkdir parents True fs p = Inr fs' \<and> only_gitkeep_files fs'"
proof (induction parents "True" fs p rule: mkdir.induct)
  case (1 parents fs p)
  show ?case
  proof (cases "os_mkdir fs p")
    case (Inr fs1)
    then have "mkdir parents True fs p = Inr fs1" by (subst mkdir.simps) simp
    moreover from Inr "1.prems"(2) have "only_gitkeep_files fs1"
      by (auto dest!: os_mkdir_Inr intro: only_gitkeep_put_Dir)
    ultimately show ?thesis by blast
  next
    case (Inl e)
    show ?thesis
    proof (cases "lookup fs (parent p)")
      case None
      with Inl have e: "e = FileNotFoundError" by (simp add: os_mkdir_def)
      from None "1.prems"(1) have par: "parents" by simp
      have "butlast p \<noteq> p" if "p \<noteq> []"
        using that by (cases p rule: rev_cases) auto
      with None have np: "parent p \<noteq> p"
        by (auto simp: parent_def lookup_def split: if_splits)
      from par np have c: "\<not> (\<not> parents \<or> parent p = p)" by simp
      from "1.hyps"(1) [OF Inl e c _ "1.prems"(2) clean_parent [OF "1.prems"(3)]]
      obtain fs1 where a: "mkdir True True fs (parent p) = Inr fs1" and i1: "only_gitkeep_files fs1"
        by auto
      from mkdir_is_dir [OF a] have "lookup fs1 (parent p) \<noteq> None" by (simp add: is_dir_def)
      with "1.hyps"(2) [OF Inl e c a _ i1 "1.prems"(3)]
      obtain fs2 where b: "mkdir False True fs1 p = Inr fs2" and i2: "only_gitkeep_files fs2"
        by auto
      from Inl e c a b have "mkdir parents True fs p = Inr fs2"
        by (subst mkdir.simps) simp
      with i2 show ?thesis by blast
    next
      case (Some n)
      have n: "n = Dir"
      proof (cases n)
        case Dir
        then show ?thesis .
      next
        case (File t)
        with Some file_not_clean [OF "1.prems"(2), of "parent p" t] clean_parent [OF "1.prems"(3)]
        show ?thesis by simp
      qed
      with Some Inl obtain m where m: "lookup fs p = Some m" and e: "e = FileExistsError"
        by (auto simp: os_mkdir_def split: option.splits)
      have "m = Dir"
      proof (cases m)
        case Dir
        then show ?thesis .
      next
        case (File t)
        with m file_not_clean [OF "1.prems"(2), of p t] "1.prems"(3) show ?thesis by simp
      qed
      with m have "is_dir fs p" by (simp add: is_dir_def)
      with Inl e have "mkdir parents True fs p = Inr fs" by (subst mkdir.simps) simp
      with "1.prems"(2) show ?thesis by blast
    qed
  qed
qed


lemma touch_gitkeep_succeeds:
  assumes "only_gitkeep_files fs" and "is_dir fs p"
  shows "\<exists>fs'. touch fs (p @ [''.gitkeep'']) = Inr fs' \<and> only_gitkeep_files fs'"
proof (cases "exists fs (p @ [''.gitkeep''])")
  case True
  with assms(1) show ?thesis by (simp add: touch_def)
next
  case False
  then have n: "lookup fs (p @ [''.gitkeep'']) = None" by (simp add: exists_def)
  moreover have "parent (p @ [''.gitkeep'']) = p" by (simp add: parent_snoc)
  ultimately have "touch fs (p @ [''.gitkeep'']) = Inr (fs_put (p @ [''.gitkeep'']) (File []) fs)"
    using assms(2) False by (simp add: touch_def is_dir_def)
  with only_gitkeep_put_gitkeep [OF assms(1) n] show ?thesis by blast
qed

lemma ensure_tree_topics_succeeds:
  "only_gitkeep_files fs \<Longrightarrow> clean base \<Longrightarrow> \<forall>t\<in>set ts. plain t \<Longrightarrow>
     \<exists>fs'. ensure_tree_topics base ts fs = Inr fs' \<and> only_gitkeep_files fs'"
proof (induction ts arbitrary: fs)
  case Nil
  then show ?case by simp
next
  case (Cons t ts)
  from Cons.prems(3) have t: "plain t" by simp
  from mkdir_succeeds [of True fs "base @ [t]", OF _ Cons.prems(1) clean_snoc [OF Cons.prems(2) t]]
  obtain fs1 where a: "mkdir True True fs (base @ [t]) = Inr fs1" and i1: "only_gitkeep_files fs1"
    by auto
  from touch_gitkeep_succeeds [OF i1 mkdir_is_dir [OF a]]
  obtain fs2 where b: "touch fs1 (base @ [t, ''.gitkeep'']) = Inr fs2" and i2: "only_gitkeep_files fs2"
    by auto
  from Cons.IH [OF i2 Cons.prems(2)] Cons.prems(3)
  obtain fs3 where "ensure_tree_topics base ts fs2 = Inr fs3" "only_gitkeep_files fs3"
    by auto
  with a b show ?case
    by (simp add: pjoin_plain [OF t] andthen_def)
qed

lemma ensure_tree_groups_succeeds:
  "only_gitkeep_files fs \<Longrightarrow> clean ROOT \<Longrightarrow> plain area \<Longrightarrow>
   \<forall>g\<in>set gs. plain (fst g) \<and> (\<forall>t\<in>set (snd g). plain t) \<Longrightarrow>
     \<exists>fs'. ensure_tree_groups ROOT area gs fs = Inr fs' \<and> only_gitkeep_files fs'"
proof (induction gs arbitrary: fs)
  case Nil
  then show ?case by simp
next
  case (Cons g gs)
  obtain grp tops where g: "g = (grp, tops)" by (cases g)
  with Cons.prems(4) have p: "plain grp" and ts: "\<forall>t\<in>set tops. plain t" by simp_all
  let ?base = "ROOT @ [area, grp]"
  have cb: "clean ?base"
    using clean_snoc [OF clean_snoc [OF Cons.prems(2,3)] p] by simp
  from mkdir_succeeds [of True fs ?base, OF _ Cons.prems(1) cb]
  obtain fs1 where a: "mkdir True True fs ?base = Inr fs1" and i1: "only_gitkeep_files fs1"
    by auto
  from touch_gitkeep_succeeds [OF i1 mkdir_is_dir [OF a]]
  obtain fs2 where b: "touch fs1 (?base @ [''.gitkeep'']) = Inr fs2" and i2: "only_gitkeep_files fs2"
    by auto
  from ensure_tree_topics_succeeds [OF i2 cb ts]
  obtain fs3 where c: "ensure_tree_topics ?base tops fs2 = Inr fs3" and i3: "only_gitkeep_files fs3"
    by auto
  from Cons.IH [OF i3 Cons.prems(2,3)] Cons.prems(4)
  obtain fs4 where "ensure_tree_groups ROOT area gs fs3 = Inr fs4" "only_gitkeep_files fs4"
    by auto
  with a b c show ?case
    by (simp add: g pjoin_plain [OF p] pjoin_plain [OF Cons.prems(3)] andthen_def)
qed

lemma ensure_tree_areas_succeeds:
  "only_gitkeep_files fs \<Longrightarrow> clean ROOT \<Longrightarrow>
   \<forall>a\<in>set cats. plain (fst a) \<and> (\<forall>g\<in>set (snd a). plain (fst g) \<and> (\<forall>t\<in>set (snd g). plain t)) \<Longrightarrow>
     \<exists>fs'. ensure_tree_areas ROOT cats fs = Inr fs' \<and> only_gitkeep_files fs'"
proof (induction cats arbitrary: fs)
  case Nil
  then show ?case by simp
next
  case (Cons a cats)
  obtain area gs where g: "a = (area, gs)" by (cases a)
  with Cons.prems(3) have p: "plain area"
    and ps: "\<forall>g\<in>set gs. plain (fst g) \<and> (\<forall>t\<in>set (snd g). plain t)" by simp_all
  from ensure_tree_groups_succeeds [OF Cons.prems(1,2) p ps]
  obtain fs1 where a: "ensure_tree_groups ROOT area gs fs = Inr fs1" and i1: "only_gitkeep_files fs1"
    by auto
  from Cons.IH [OF i1 Cons.prems(2)] Cons.prems(3)
  obtain fs2 where "ensure_tree_areas ROOT cats fs1 = Inr fs2" "only_gitkeep_files fs2"
    by auto
  with a show ?case by (simp add: g andthen_def)
qed

lemma CATEGORIES_plain:
  "list_all (\<lambda>a. plain (fst a) \<and> list_all (\<lambda>g. plain (fst g) \<and> list_all plain (snd g)) (snd a))
     CATEGORIES"
  by code_simp

lemma ensure_tree_succeeds:
  assumes "only_gitkeep_files fs" and "clean ROOT" and "is_dir fs ROOT"
  shows "\<exists>fs'. ensure_tree ROOT fs = Inr fs'"
proof -
  from CATEGORIES_plain have
    "\<forall>a\<in>set CATEGORIES. plain (fst a) \<and> (\<forall>g\<in>set (snd a). plain (fst g) \<and> (\<forall>t\<in>set (snd g). plain t))"
    by (simp add: list_all_iff)
  from ensure_tree_areas_succeeds [OF assms(1,2) this]
  obtain fs1 where a: "ensure_tree_areas ROOT CATEGORIES fs = Inr fs1" by auto
  from assms(3) ensure_tree_areas_keeps [OF a, of ROOT Dir] have "lookup fs1 ROOT = Some Dir"
    by (simp add: is_dir_def)
  moreover have "parent (ROOT @ [''INDEX.md'']) = ROOT" by (simp add: parent_snoc)
  ultimately have "\<exists>fs'. touch fs1 (ROOT @ [''INDEX.md'']) = Inr fs'"
    by (simp add: touch_def)
  with a show ?thesis by (auto simp: ensure_tree_def andthen_def)
qed


lemma route_in_routed_groups: "(fst (route topic), fst (snd (route topic))) \<in> set routed_groups"
  by (simp add: route_def routed_groups_def Let_def)

lemma routed_groups_checked:
  "list_all (\<lambda>(area, grp). lower area = area \<and> lower grp = grp
              \<and> (case map_of CATEGORIES area of
                    None \<Rightarrow> False
                  | Some gs \<Rightarrow> map_of gs grp \<noteq> None)) routed_groups"
  by code_simp

lemma routed_groups_facts:
  assumes "(area, grp) \<in> set routed_groups"
  shows "lower area = area \<and> lower grp = grp
    \<and> (\<exists>gs tops. map_of CATEGORIES area = Some gs \<and> map_of gs grp = Some tops)"
proof -
  from routed_groups_checked have
    "\<forall>x\<in>set routed_groups. case x of (area, grp) \<Rightarrow> lower area = area \<and> lower grp = grp
              \<and> (case map_of CATEGORIES area of
                    None \<Rightarrow> False
                  | Some gs \<Rightarrow> map_of gs grp \<noteq> None)"
    unfolding list_all_iff .
  from bspec [OF this assms] have a: "lower area = area" "lower grp = grp"
    and b: "case map_of CATEGORIES area of None \<Rightarrow> False | Some gs \<Rightarrow> map_of gs grp \<noteq> None"
    by simp_all
  from b obtain gs where "map_of CATEGORIES area = Some gs" "map_of gs grp \<noteq> None"
    by (cases "map_of CATEGORIES area") simp_all
  with a show ?thesis by blast
qed

lemma slug_no_slash: "\<not> startswith (slug topic) ''/''"
proof (cases "slug topic")
  case Nil
  then show ?thesis by simp
next
  case (Cons c cs)
  with slug_shape [of topic] have "is_a_z0_9 c" by (simp split: if_splits)
  then have "c \<noteq> CHR ''/''" by (auto simp: is_a_z0_9_def code_def)
  with Cons show ?thesis by simp
qed

text \<open>
  C9: whatever the topic, the area and group that the router returns are one of the seven
  pairs (swe, frontend), (swe, devops), (swe, backend), (ai, agents), (ai, llms),
  (ml, frameworks), (swe, misc); each of them is an area and a group of \<open>CATEGORIES\<close>, so
  that directory stands after every run of the Tree Scaffolder that succeeds, and the
  directory that the materializer makes for the topic lies in it.
\<close>

theorem routed_group_is_in_taxonomy:
  "\<exists>area grp lang. route topic = (area, grp, lang)
     \<and> (area, grp) \<in> {(''swe'', ''frontend''), (''swe'', ''devops''), (''swe'', ''backend''),
                       (''ai'', ''agents''), (''ai'', ''llms''), (''ml'', ''frameworks''),
                       (''swe'', ''misc'')}
     \<and> (\<exists>gs tops. map_of CATEGORIES area = Some gs \<and> map_of gs grp = Some tops)
     \<and> (\<forall>ROOT fs fs'. ensure_tree ROOT fs = Inr fs' \<longrightarrow> is_dir fs' (pjoin (pjoin ROOT area) grp))
     \<and> (\<forall>ROOT. \<exists>rest. topic_dir ROOT area grp topic = pjoin (pjoin ROOT area) grp @ rest)"
proof -
  obtain area grp lang where r: "route topic = (area, grp, lang)" by (cases "route topic")
  with route_in_routed_groups [of topic] have m: "(area, grp) \<in> set routed_groups" by simp
  from routed_groups_facts [OF m] obtain gs tops where
    l: "lower area = area" "lower grp = grp" and
    c: "map_of CATEGORIES area = Some gs" "map_of gs grp = Some tops"
    by (elim conjE exE)
  have "is_dir fs' (pjoin (pjoin ROOT area) grp)" if "ensure_tree ROOT fs = Inr fs'" for ROOT fs fs'
    using that c by (intro ensure_tree_dirs [of ROOT fs fs' area gs grp tops]) (auto dest: map_of_SomeD)
  moreover have "\<exists>rest. topic_dir ROOT area grp topic = pjoin (pjoin ROOT area) grp @ rest" for ROOT
    using slug_no_slash [of topic] by (simp add: topic_dir_def l pjoin_def [of _ "slug topic"])
  moreover from m have "(area, grp) \<in> {(''swe'', ''frontend''), (''swe'', ''devops''),
      (''swe'', ''backend''), (''ai'', ''agents''), (''ai'', ''llms''), (''ml'', ''frameworks''),
      (''swe'', ''misc'')}"
    by (simp add: routed_groups_def)
  ultimately show ?thesis using r c
    by (intro exI [of _ area] exI [of _ grp] exI [of _ lang] conjI) (blast+)
qed



theorem routed_group_is_in_taxonomy_witness:
  "route ''Learning Django REST'' = (''swe'', ''backend'', ''python'')
   \<and> \<not> isl (ensure_tree [''knowledge''] [([''knowledge''], Dir)])
   \<and> is_dir (projr (ensure_tree [''knowledge''] [([''knowledge''], Dir)]))
        [''knowledge'', ''swe'', ''backend'']"
proof -
  let ?run = "ensure_tree [''knowledge''] [([''knowledge''], Dir)]"
  have r: "route ''Learning Django REST'' = (''swe'', ''backend'', ''python'')" by code_simp
  have "\<exists>fs'. ?run = Inr fs'"
    by (rule ensure_tree_succeeds)
       (auto simp: only_gitkeep_files_def clean_def is_dir_def lookup_def split: if_splits)
  then have a: "\<not> isl ?run" and b: "?run = Inr (projr ?run)" by auto
  have p: "pjoin (pjoin [''knowledge''] ''swe'') ''backend'' = [''knowledge'', ''swe'', ''backend'']"
    by code_simp
  from routed_group_is_in_taxonomy [of "''Learning Django REST''"] r
  have "\<forall>ROOT fs fs'. ensure_tree ROOT fs = Inr fs' \<longrightarrow> is_dir fs' (pjoin (pjoin ROOT ''swe'') ''backend'')"
    by auto
  with b have "is_dir (projr ?run) (pjoin (pjoin [''knowledge''] ''swe'') ''backend'')"
    by blast
  with r a p show ?thesis by simp
qed

section \<open>Properties of the Journal Parser\<close>

subsection \<open>The matcher moves forward\<close>

lemma star_greedy_le:
  "(\<And>p q. q \<in> set (f p) \<Longrightarrow> length (snd q) \<le> length (snd p)) \<Longrightarrow>
     q \<in> set (star_greedy f fuel p) \<Longrightarrow> length (snd q) \<le> length (snd p)"
proof (induction fuel arbitrary: p)
  case Nil
  then show ?case by simp
next
  case (Cons x fuel)
  from Cons.prems(2) consider "q = p" | m where "m \<in> set (f p)" "q \<in> set (star_greedy f fuel m)"
    by auto
  then show ?case
  proof cases
    case 1
    then show ?thesis by simp
  next
    case 2
    from Cons.IH [OF Cons.prems(1) 2(2)] Cons.prems(1) [OF 2(1)] show ?thesis by simp
  qed
qed

lemma star_lazy_le:
  "(\<And>p q. q \<in> set (f p) \<Longrightarrow> length (snd q) \<le> length (snd p)) \<Longrightarrow>
     q \<in> set (star_lazy f fuel p) \<Longrightarrow> length (snd q) \<le> length (snd p)"
proof (induction fuel arbitrary: p)
  case Nil
  then show ?case by simp
next
  case (Cons x fuel)
  from Cons.prems(2) consider "q = p" | m where "m \<in> set (f p)" "q \<in> set (star_lazy f fuel m)"
    by auto
  then show ?case
  proof cases
    case 1
    then show ?thesis by simp
  next
    case 2
    from Cons.IH [OF Cons.prems(1) 2(2)] Cons.prems(1) [OF 2(1)] show ?thesis by simp
  qed
qed

lemma rmatch_le: "q \<in> set (rmatch r p) \<Longrightarrow> length (snd q) \<le> length (snd p)"
proof (induction r arbitrary: p q)
  case (Seq a b)
  from Seq.prems obtain m where "m \<in> set (rmatch a p)" "q \<in> set (rmatch b m)" by auto
  with Seq.IH show ?case by fastforce
next
  case (Star a)
  then show ?case using star_greedy_le [of "rmatch a"] by simp
next
  case (StarLazy a)
  then show ?case using star_lazy_le [of "rmatch a"] by simp
qed (auto split: list.splits if_splits)

lemma rpaths_shape: "m \<in> set (rpaths pat p) \<Longrightarrow> m \<noteq> [] \<and> hd m = p \<and> length m = Suc (length pat)"
  by (induction pat arbitrary: p m) auto

lemma rpaths_last_le: "m \<in> set (rpaths pat p) \<Longrightarrow> length (snd (last m)) \<le> length (snd p)"
proof (induction pat arbitrary: p m)
  case Nil
  then show ?case by simp
next
  case (Cons g pat)
  from Cons.prems obtain q m' where q: "q \<in> set (rmatch (snd g) p)" and m': "m' \<in> set (rpaths pat q)"
    and m: "m = p # m'"
    by auto
  from rpaths_shape [OF m'] m have "last m = last m'" by simp
  with Cons.IH [OF m'] rmatch_le [OF q] show ?case by simp
qed



subsection \<open>Positions stay in the text\<close>

lemma reads_refl: "reads p [] p"
  by (simp add: reads_def)

lemma reads_trans: "reads p a q \<Longrightarrow> reads q b r \<Longrightarrow> reads p (a @ b) r"
  by (auto simp: reads_def)

lemma star_greedy_reads:
  "(\<And>p q. q \<in> set (f p) \<Longrightarrow> \<exists>a. reads p a q) \<Longrightarrow>
     q \<in> set (star_greedy f fuel p) \<Longrightarrow> \<exists>a. reads p a q"
proof (induction fuel arbitrary: p)
  case Nil
  then show ?case by (auto intro: reads_refl)
next
  case (Cons x fuel)
  from Cons.prems(2) consider "q = p" | m where "m \<in> set (f p)" "q \<in> set (star_greedy f fuel m)"
    by auto
  then show ?case
  proof cases
    case 1
    then show ?thesis by (auto intro: reads_refl)
  next
    case 2
    from Cons.IH [OF Cons.prems(1) 2(2)] Cons.prems(1) [OF 2(1)] show ?thesis
      by (blast intro: reads_trans)
  qed
qed

lemma star_lazy_reads:
  "(\<And>p q. q \<in> set (f p) \<Longrightarrow> \<exists>a. reads p a q) \<Longrightarrow>
     q \<in> set (star_lazy f fuel p) \<Longrightarrow> \<exists>a. reads p a q"
proof (induction fuel arbitrary: p)
  case Nil
  then show ?case by (auto intro: reads_refl)
next
  case (Cons x fuel)
  from Cons.prems(2) consider "q = p" | m where "m \<in> set (f p)" "q \<in> set (star_lazy f fuel m)"
    by auto
  then show ?case
  proof cases
    case 1
    then show ?thesis by (auto intro: reads_refl)
  next
    case 2
    from Cons.IH [OF Cons.prems(1) 2(2)] Cons.prems(1) [OF 2(1)] show ?thesis
      by (blast intro: reads_trans)
  qed
qed

lemma rmatch_reads: "q \<in> set (rmatch r p) \<Longrightarrow> \<exists>a. reads p a q"
proof (induction r arbitrary: p q)
  case Eps
  then show ?case by (auto intro: reads_refl)
next
  case (Chr P)
  then obtain c cs where "snd p = c # cs" "q = (Some c, cs)"
    by (cases "snd p") (auto split: if_splits)
  then have "reads p [c] q" by (simp add: reads_def)
  then show ?case by blast
next
  case Bol
  then show ?case by (auto intro: reads_refl split: if_splits)
next
  case Eol
  then show ?case by (cases "snd p") (auto intro: reads_refl split: if_splits)
next
  case (Seq a b)
  from Seq.prems obtain m where "m \<in> set (rmatch a p)" "q \<in> set (rmatch b m)" by auto
  with Seq.IH show ?case by (blast intro: reads_trans)
next
  case (Star a)
  then show ?case using star_greedy_reads [of "rmatch a"] by simp
next
  case (StarLazy a)
  then show ?case using star_lazy_reads [of "rmatch a"] by simp
next
  case (NegLook a)
  then show ?case by (auto intro: reads_refl split: if_splits)
qed

lemma rpaths_reads: "m \<in> set (rpaths pat p) \<Longrightarrow> \<exists>a. reads p a (last m)"
proof (induction pat arbitrary: p m)
  case Nil
  then show ?case by (auto intro: reads_refl)
next
  case (Cons g pat)
  from Cons.prems obtain q m' where q: "q \<in> set (rmatch (snd g) p)" and m': "m' \<in> set (rpaths pat q)"
    and m: "m = p # m'"
    by auto
  from rpaths_shape [OF m'] m have "last m = last m'" by simp
  moreover from Cons.IH [OF m'] obtain b where "reads q b (last m')" by blast
  moreover from rmatch_reads [OF q] obtain a where "reads p a q" by blast
  ultimately have "reads p (a @ b) (last m)" by (simp add: reads_trans)
  then show ?case by blast
qed

subsection \<open>The first match ends with the first result of the last part\<close>




subsection \<open>The scan for a pattern whose matches all consume text\<close>



lemma finditer_Matched: "m \<in> set (finditer pat s) \<longleftrightarrow> Matched m \<in> set (scan pat False (None, s))"
  by (auto simp: finditer_def split: token.splits)



subsection \<open>Blocks\<close>

lemma reads_pos_after: "reads p a q \<Longrightarrow> pos_after p a = q"
  by (cases q) (auto simp: reads_def pos_after_def)

lemma reads_text_between: "reads p a q \<Longrightarrow> text_between p q = a"
  by (simp add: reads_def text_between_def)






subsection \<open>Sections\<close>

lemma rpaths_Nil_iff: "m \<in> set (rpaths [] p) \<longleftrightarrow> m = [p]"
  by simp

lemma rpaths_Cons_iff:
  "m \<in> set (rpaths (g # gs) p) \<longleftrightarrow>
     (\<exists>q m'. q \<in> set (rmatch (snd g) p) \<and> m' \<in> set (rpaths gs q) \<and> m = p # m')"
  by auto










subsection \<open>The list pattern reads one line\<close>

lemma rpaths_advances_part:
  "g \<in> set pat \<Longrightarrow> (\<And>p q. q \<in> set (rmatch (snd g) p) \<Longrightarrow> advances p q) \<Longrightarrow>
     m \<in> set (rpaths pat p) \<Longrightarrow> advances p (last m)"
proof (induction pat arbitrary: p m)
  case Nil
  then show ?case by simp
next
  case (Cons g0 pat)
  from Cons.prems(3) obtain q m' where q: "q \<in> set (rmatch (snd g0) p)" and m': "m' \<in> set (rpaths pat q)"
    and m: "m = p # m'"
    by auto
  from rpaths_shape [OF m'] m have l: "last m = last m'" by simp
  show ?case
  proof (cases "g = g0")
    case True
    with Cons.prems(2) [OF q [folded True]] rpaths_last_le [OF m'] l show ?thesis
      by (simp add: advances_def)
  next
    case False
    with Cons.prems(1) have "g \<in> set pat" by simp
    from Cons.IH [OF this Cons.prems(2) m'] rmatch_le [OF q] l show ?thesis
      by (simp add: advances_def)
  qed
qed

lemma scan_Matched:
  "Matched m \<in> set (scan pat adv p) \<Longrightarrow> \<exists>p'. m \<in> set (rpaths pat p')"
proof (induction pat adv p rule: scan.induct)
  case (1 pat must_advance p)
  show ?case
  proof (cases "List.find (\<lambda>m. \<not> must_advance \<or> advances p (last m)) (rpaths pat p)")
    case None
    show ?thesis
    proof (cases "snd p")
      case Nil
      with None "1.prems" show ?thesis by (subst (asm) scan.simps) simp
    next
      case (Cons c cs)
      with None "1.prems" have "Matched m \<in> set (scan pat False (Some c, cs))"
        by (subst (asm) scan.simps) simp
      from "1.IH"(1) [OF None Cons this] show ?thesis .
    qed
  next
    case (Some m0)
    then have m0: "m0 \<in> set (rpaths pat p)" by (auto simp: find_Some_iff in_set_conv_nth)
    show ?thesis
    proof (cases "m = m0")
      case True
      with m0 show ?thesis by blast
    next
      case False
      show ?thesis
      proof (cases "advances p (last m0)")
        case True
        with Some \<open>m \<noteq> m0\<close> "1.prems" have "Matched m \<in> set (scan pat False (last m0))"
          by (subst (asm) scan.simps) simp
        from "1.IH"(2) [OF Some True this] show ?thesis .
      next
        case False
        with Some \<open>m \<noteq> m0\<close> "1.prems" have "Matched m \<in> set (scan pat True p)"
          by (subst (asm) scan.simps) simp
        from "1.IH"(3) [OF Some False this] show ?thesis .
      qed
    qed
  qed
qed

lemma star_greedy_reads_such:
  assumes step: "\<And>p q. q \<in> set (f p) \<Longrightarrow> \<exists>a. reads p a q \<and> Q a"
    and nil: "Q []" and app: "\<And>a b. Q a \<Longrightarrow> Q b \<Longrightarrow> Q (a @ b)"
  shows "q \<in> set (star_greedy f fuel p) \<Longrightarrow> \<exists>a. reads p a q \<and> Q a"
proof (induction fuel arbitrary: p)
  case Nil
  with nil show ?case by (auto intro: reads_refl)
next
  case (Cons x fuel)
  from Cons.prems consider "q = p" | m where "m \<in> set (f p)" "q \<in> set (star_greedy f fuel m)"
    by auto
  then show ?case
  proof cases
    case 1
    with nil show ?thesis by (auto intro: reads_refl)
  next
    case 2
    from step [OF 2(1)] obtain a where a: "reads p a m" "Q a" by blast
    from Cons.IH [OF 2(2)] obtain b where b: "reads m b q" "Q b" by blast
    from reads_trans [OF a(1) b(1)] app [OF a(2) b(2)] show ?thesis by blast
  qed
qed

lemma BLOCK_line:
  assumes "q \<in> set (rmatch (BLOCK False) p)"
  shows "\<exists>a. reads p a q \<and> newline \<notin> set a"
proof -
  have "\<exists>a. reads p a q \<and> newline \<notin> set a"
    if "q \<in> set (rmatch (Seq (NegLook date_heading) (Chr (dot False))) p)" for p q
  proof -
    from that obtain c cs where "snd p = c # cs" "q = (Some c, cs)" "c \<noteq> newline"
      by (cases "snd p") (auto simp: dot_def split: if_splits)
    then have "reads p [c] q \<and> newline \<notin> set [c]" by (simp add: reads_def)
    then show ?thesis by blast
  qed
  from star_greedy_reads_such [of "rmatch (Seq (NegLook date_heading) (Chr (dot False)))"
        "\<lambda>a. newline \<notin> set a" q "snd p" p, OF this] assms
  show ?thesis by (simp add: BLOCK_def del: rmatch.simps(5))
qed

lemma list_re_group:
  assumes "m \<in> set (rpaths (list_re heading) p)"
  shows "newline \<notin> set (match_group (list_re heading) m 1)"
proof -
  from assms obtain p1 p2 where m: "m = [p, p1, p2]" and b: "p2 \<in> set (rmatch (BLOCK False) p1)"
    unfolding list_re_def rpaths_Cons_iff rpaths_Nil_iff snd_conv by blast
  from BLOCK_line [OF b] obtain a where "reads p1 a p2" "newline \<notin> set a" by blast
  with m show ?thesis
    by (simp add: match_group_def list_re_def reads_text_between)
qed


subsection \<open>One line holds at most one bullet\<close>

lemma bullet_needs_line_start:
  "fst p = Some c \<Longrightarrow> c \<noteq> newline \<Longrightarrow> rpaths bullet_re p = []"
  by (simp add: bullet_re_def)

lemma no_bullet_inside_line:
  "fst p = Some c \<Longrightarrow> c \<noteq> newline \<Longrightarrow> newline \<notin> set (snd p) \<Longrightarrow>
     \<forall>t\<in>set (scan bullet_re adv p). \<exists>x. t = Skipped x"
proof (induction "snd p" arbitrary: p c adv)
  case Nil
  from bullet_needs_line_start [OF Nil.prems(1,2)] Nil.hyps show ?case
    by (cases p) (simp add: scan_end_no_match)
next
  case (Cons x xs)
  from Cons.hyps(2) obtain pv where p: "p = (pv, x # xs)" by (cases p) auto
  from bullet_needs_line_start [OF Cons.prems(1,2)] p
  have s: "scan bullet_re adv p = Skipped x # scan bullet_re False (Some x, xs)"
    by (simp add: scan_no_match)
  from Cons.prems(3) p have "x \<noteq> newline" "newline \<notin> set xs" by auto
  with Cons.hyps(1) [of "(Some x, xs)" x False]
  have "\<forall>t\<in>set (scan bullet_re False (Some x, xs)). \<exists>y. t = Skipped y" by simp
  with s show ?case by simp
qed

lemma bullet_advances: "m \<in> set (rpaths bullet_re p) \<Longrightarrow> advances p (last m)"
proof (rule rpaths_advances_part
         [of "(True, Seq (Chr (dot False)) (StarLazy (Chr (dot False))))" bullet_re])
  show "(True, Seq (Chr (dot False)) (StarLazy (Chr (dot False)))) \<in> set bullet_re"
    by (simp add: bullet_re_def)
next
  fix p q
  assume "q \<in> set (rmatch (snd (True, Seq (Chr (dot False)) (StarLazy (Chr (dot False))))) p)"
  then obtain c cs where p: "snd p = c # cs"
    and q: "q \<in> set (rmatch (StarLazy (Chr (dot False))) (Some c, cs))"
    by (cases "snd p") (auto split: if_splits)
  from rmatch_le [OF q] p show "advances p q" by (simp add: advances_def)
qed

lemma only_skipped:
  "\<forall>t\<in>set ts. \<exists>x. t = Skipped x \<Longrightarrow>
     concat (map (\<lambda>t. case t of Skipped c \<Rightarrow> [] | Matched m \<Rightarrow> [m]) ts) = []"
  by (induction ts) auto

lemma one_bullet_per_line:
  assumes "newline \<notin> set g"
  shows "length (finditer bullet_re g) \<le> 1"
proof (cases "rpaths bullet_re (None, g)")
  case Nil
  show ?thesis
  proof (cases g)
    case Nil
    with \<open>rpaths bullet_re (None, g) = []\<close> show ?thesis
      by (simp add: finditer_def scan_end_no_match)
  next
    case (Cons c cs)
    with assms have "\<forall>t\<in>set (scan bullet_re False (Some c, cs)). \<exists>x. t = Skipped x"
      by (intro no_bullet_inside_line [of _ c]) auto
    from only_skipped [OF this]
    have "concat (map (\<lambda>t. case t of Skipped c \<Rightarrow> [] | Matched m \<Rightarrow> [m])
                  (scan bullet_re False (Some c, cs))) = []" .
    moreover from Cons \<open>rpaths bullet_re (None, g) = []\<close>
    have "scan bullet_re False (None, g) = Skipped c # scan bullet_re False (Some c, cs)"
      by (simp add: scan_no_match)
    ultimately have "finditer bullet_re g = []" by (simp add: finditer_def)
    then show ?thesis by simp
  qed
next
  case (Cons m ms)
  then have m: "m \<in> set (rpaths bullet_re (None, g))" by simp
  from bullet_advances [OF m] have adv: "advances (None, g) (last m)" .
  from rpaths_reads [OF m] obtain a where a: "reads (None, g) a (last m)" by blast
  with adv have "a \<noteq> []" by (auto simp: reads_def advances_def)
  with a have f: "fst (last m) = Some (last a)" and g: "g = a @ snd (last m)"
    by (simp_all add: reads_def)
  from \<open>a \<noteq> []\<close> have "last a \<in> set a" by (rule last_in_set)
  with g assms have "last a \<noteq> newline" "newline \<notin> set (snd (last m))"
    by auto
  from no_bullet_inside_line [OF f this]
  have "\<forall>t\<in>set (scan bullet_re False (last m)). \<exists>x. t = Skipped x" .
  from only_skipped [OF this]
  have "concat (map (\<lambda>t. case t of Skipped c \<Rightarrow> [] | Matched m \<Rightarrow> [m])
                (scan bullet_re False (last m))) = []" .
  moreover from scan_match [OF Cons adv]
  have "scan bullet_re False (None, g) = Matched m # scan bullet_re False (last m)" .
  ultimately have "finditer bullet_re g = [m]" by (simp add: finditer_def)
  then show ?thesis by simp
qed

lemma parse_list_at_most_one: "length (parse_list section heading) \<le> 1"
proof (cases "search (list_re heading) section")
  case None
  then show ?thesis by (simp add: parse_list_def)
next
  case (Some mm)
  then have "mm \<in> set (finditer (list_re heading) section)"
    by (auto simp: search_def split: list.splits)
  then have "Matched mm \<in> set (scan (list_re heading) False (None, section))"
    by (simp add: finditer_Matched)
  from scan_Matched [OF this] obtain p where "mm \<in> set (rpaths (list_re heading) p)" by blast
  from one_bullet_per_line [OF list_re_group [OF this]]
  have "length (findall bullet_re (match_group (list_re heading) mm 1)) \<le> 1"
    by (simp add: findall_def)
  moreover have "length (filter (\<lambda>b. strip b \<noteq> []) (findall bullet_re (match_group (list_re heading) mm 1)))
      \<le> length (findall bullet_re (match_group (list_re heading) mm 1))"
    by (rule length_filter_le)
  ultimately have "length (filter (\<lambda>b. strip b \<noteq> [])
      (findall bullet_re (match_group (list_re heading) mm 1))) \<le> 1"
    by linarith
  with Some show ?thesis by (simp add: parse_list_def Let_def)
qed

lemma parse_at_most_one:
  "length (topics (parse_yearly_journal today journal target_date0)) \<le> 1
   \<and> length (notes' (parse_yearly_journal today journal target_date0)) \<le> 1"
  by (simp add: parse_yearly_journal_def Let_def parse_list_at_most_one [unfolded One_nat_def])


text \<open>
  C1, on the journal of the example: the section of 2025-06-01 has the \<open>Topics:\<close> bullets
  "rust basics" and "docker networking" and the \<open>Notes:\<close> bullet "review later". The
  pattern of \<open>parse_list\<close> is compiled without \<open>re.DOTALL\<close>, so its block ends with the
  first line after the heading, and the parser returns the first topic only. For every
  journal and date it returns at most one topic and at most one note.
\<close>

theorem parse_example_journal_first_topic_only:
  "parse_yearly_journal today example_journal (Some ''2025-06-01'')
     = \<lparr>date = ''2025-06-01'', topics = [''rust basics''], notes' = [''review later'']\<rparr>
   \<and> (\<forall>journal target_date0.
         length (topics (parse_yearly_journal today journal target_date0)) \<le> 1
         \<and> length (notes' (parse_yearly_journal today journal target_date0)) \<le> 1)"
proof -
  have "parse_yearly_journal today example_journal (Some ''2025-06-01'')
     = \<lparr>date = ''2025-06-01'', topics = [''rust basics''], notes' = [''review later'']\<rparr>"
    by code_simp
  with parse_at_most_one show ?thesis by blast
qed



section \<open>Properties of the Index Builder\<close>

text \<open>
  C7: on the tree with the one area \<open>swe\<close>, the one group \<open>frontend\<close> and the one topic
  \<open>react-hooks\<close> that holds a README (whatever its text), \<open>build_index\<close> writes an index
  made of the title line, the heading \<open>## SWE\<close>, the bullet \<open>- Frontend\<close>, the nested bullet
  with the title \<open>React hooks\<close> and the link \<open>swe/frontend/react-hooks/README.md\<close>, and the
  empty line that closes the area.
\<close>

theorem build_index_example:
  "\<exists>fs'. build_index [''knowledge''] (index_example_tree readme_text) = Inr fs'
      \<and> lookup fs' [''knowledge'', ''INDEX.md'']
          = Some (File (join [newline]
              [''# '' @ books @ '' Knowledge Index'' @ [newline],
               ''## SWE'',
               ''- Frontend'',
               ''  - [React hooks](swe/frontend/react-hooks/README.md)'',
               []]))"
proof -
  have dirs: "sorted_iterdir (index_example_tree readme_text) [''knowledge'']
                = Inr [[''knowledge'', ''swe'']]"
    by code_simp
  have lines: "index_lines [''knowledge''] (index_example_tree readme_text) [[''knowledge'', ''swe'']]
     = [''# '' @ books @ '' Knowledge Index'' @ [newline],
        ''## SWE'',
        ''- Frontend'',
        ''  - [React hooks](swe/frontend/react-hooks/README.md)'',
        []]"
    by code_simp
  have "lookup (index_example_tree readme_text) [''knowledge'', ''INDEX.md''] = None"
    and "lookup (index_example_tree readme_text) (parent [''knowledge'', ''INDEX.md'']) = Some Dir"
    by code_simp+
  then show ?thesis
    by (simp add: build_index_def dirs lines andthen_def write_text_def lookup_fs_put)
qed


section \<open>Properties of the Study Orchestrator\<close>

lemma commit_cases:
  "commit w k d =
     (case run w k [''git'', ''add'', ''-A''] of
        NotStarted \<Rightarrow> ([], Raised OSError)
      | Exited a \<Rightarrow>
          if a \<noteq> 0 then ([NothingToCommit], Returned)
          else (case run w (Suc k) [''git'', ''commit'', ''-m'', ''study: '' @ d @ '' topics''] of
                  NotStarted \<Rightarrow> ([], Raised OSError)
                | Exited c \<Rightarrow>
                    if c \<noteq> 0 then ([NothingToCommit], Returned) else ([Committed], Returned)))"
  by (simp add: commit_def run_check_def split: proc.splits)

text \<open>
  C6, as the code has it. When the run reaches its last step (the journal was read, it has
  topics for the date, and every topic was added), what happens depends on how \<open>git add\<close>
  and \<open>git commit\<close> end. An exit status other than 0 of \<open>git add\<close>, or of \<open>git commit\<close>
  after a \<open>git add\<close> that ended with 0, is caught: the run prints that there is nothing to
  commit and returns normally. When both end with 0 the run prints that the changes are
  committed and returns normally. When \<open>git add\<close> cannot be started, or \<open>git commit\<close> cannot
  be started after a \<open>git add\<close> that ended with 0, nothing is printed and the run ends with
  the \<open>OSError\<close>.
\<close>

theorem commit_exit_status_is_not_fatal:
  assumes "2 \<le> length argv"
    and "read_text w (argv ! 1) = Inr journal"
    and "data = parse_yearly_journal (now w) journal
                  (if length argv \<ge> 4 \<and> argv ! 2 = ''--date'' then Some (argv ! 3) else None)"
    and "topics data \<noteq> []"
    and "add_topics w 0 (topics data) = None"
    and "git_add = run w (length (topics data)) [''git'', ''add'', ''-A'']"
    and "git_commit = run w (Suc (length (topics data)))
                        [''git'', ''commit'', ''-m'', ''study: '' @ date data @ '' topics'']"
  shows "(\<forall>a. git_add = Exited a \<and> a \<noteq> 0 \<longrightarrow> main w argv = ([NothingToCommit], Returned))
     \<and> (\<forall>c. git_add = Exited 0 \<and> git_commit = Exited c \<and> c \<noteq> 0
            \<longrightarrow> main w argv = ([NothingToCommit], Returned))
     \<and> (git_add = Exited 0 \<and> git_commit = Exited 0 \<longrightarrow> main w argv = ([Committed], Returned))
     \<and> (git_add = NotStarted \<longrightarrow> main w argv = ([], Raised OSError))
     \<and> (git_add = Exited 0 \<and> git_commit = NotStarted \<longrightarrow> main w argv = ([], Raised OSError))"
proof -
  from assms(1-5) have "main w argv = commit w (length (topics data)) (date data)"
    by (simp add: main_def Let_def)
  then show ?thesis
    unfolding commit_cases assms(6,7) by (auto split: proc.splits)
qed

theorem commit_exit_status_is_not_fatal_witness:
  "2 \<le> length example_argv
   \<and> read_text world_nothing_to_commit (example_argv ! 1) = Inr example_journal
   \<and> topics (parse_yearly_journal ''2025-06-02'' example_journal (Some ''2025-06-01''))
       = [''rust basics'']
   \<and> add_topics world_nothing_to_commit 0 [''rust basics''] = None
   \<and> run world_nothing_to_commit 1 [''git'', ''add'', ''-A''] = Exited 0
   \<and> run world_nothing_to_commit 2 [''git'', ''commit'', ''-m'', ''study: 2025-06-01 topics''] = Exited 1
   \<and> main world_nothing_to_commit example_argv = ([NothingToCommit], Returned)
   \<and> add_topics world_clean_commit 0 [''rust basics''] = None
   \<and> run world_clean_commit 1 [''git'', ''add'', ''-A''] = Exited 0
   \<and> run world_clean_commit 2 [''git'', ''commit'', ''-m'', ''study: 2025-06-01 topics''] = Exited 0
   \<and> main world_clean_commit example_argv = ([Committed], Returned)
   \<and> add_topics world_without_git 0 [''rust basics''] = None
   \<and> run world_without_git 1 [''git'', ''add'', ''-A''] = NotStarted
   \<and> main world_without_git example_argv = ([], Raised OSError)"
proof -
  let ?data = "parse_yearly_journal ''2025-06-02'' example_journal (Some ''2025-06-01'')"
  have a: "2 \<le> length example_argv" by (simp add: example_argv_def)
  have t: "(if length example_argv \<ge> 4 \<and> example_argv ! 2 = ''--date''
            then Some (example_argv ! 3) else None) = Some ''2025-06-01''"
    by (simp add: example_argv_def)
  have c: "topics ?data = [''rust basics'']" and d: "date ?data = ''2025-06-01''"
    by code_simp+
  have n: "now world_nothing_to_commit = ''2025-06-02''" "now world_clean_commit = ''2025-06-02''"
    "now world_without_git = ''2025-06-02''"
    by (simp_all add: world_nothing_to_commit_def world_clean_commit_def world_without_git_def)
  have r: "read_text world_nothing_to_commit (example_argv ! 1) = Inr example_journal"
    "read_text world_clean_commit (example_argv ! 1) = Inr example_journal"
    "read_text world_without_git (example_argv ! 1) = Inr example_journal"
    by (simp_all add: world_nothing_to_commit_def world_clean_commit_def world_without_git_def)
  have added: "add_topics world_nothing_to_commit 0 [''rust basics''] = None"
    "add_topics world_clean_commit 0 [''rust basics''] = None"
    "add_topics world_without_git 0 [''rust basics''] = None"
    by code_simp+
  have g1: "run world_nothing_to_commit 1 [''git'', ''add'', ''-A''] = Exited 0"
    "run world_nothing_to_commit 2 [''git'', ''commit'', ''-m'', ''study: 2025-06-01 topics''] = Exited 1"
    by (simp_all add: world_nothing_to_commit_def)
  have g2: "run world_clean_commit 1 [''git'', ''add'', ''-A''] = Exited 0"
    "run world_clean_commit 2 [''git'', ''commit'', ''-m'', ''study: 2025-06-01 topics''] = Exited 0"
    by (simp_all add: world_clean_commit_def)
  have g3: "run world_without_git 1 [''git'', ''add'', ''-A''] = NotStarted"
    by (simp add: world_without_git_def)
  have h3: "?data = parse_yearly_journal (now world_nothing_to_commit) example_journal
                     (if length example_argv \<ge> 4 \<and> example_argv ! 2 = ''--date''
                      then Some (example_argv ! 3) else None)"
    "?data = parse_yearly_journal (now world_clean_commit) example_journal
                     (if length example_argv \<ge> 4 \<and> example_argv ! 2 = ''--date''
                      then Some (example_argv ! 3) else None)"
    "?data = parse_yearly_journal (now world_without_git) example_journal
                     (if length example_argv \<ge> 4 \<and> example_argv ! 2 = ''--date''
                      then Some (example_argv ! 3) else None)"
    by (simp_all only: t n)
  have h4: "topics ?data \<noteq> []" by (simp add: c)
  have h5: "add_topics world_nothing_to_commit 0 (topics ?data) = None"
    "add_topics world_clean_commit 0 (topics ?data) = None"
    "add_topics world_without_git 0 (topics ?data) = None"
    by (simp_all only: c added)
  have k: "length (topics ?data) = 1" "Suc 1 = 2"
    "''study: '' @ date ?data @ '' topics'' = ''study: 2025-06-01 topics''"
    by (simp_all add: c d)
  note first = commit_exit_status_is_not_fatal [OF a r(1) h3(1) h4 h5(1) refl refl, unfolded k]
  note second = commit_exit_status_is_not_fatal [OF a r(2) h3(2) h4 h5(2) refl refl, unfolded k]
  note third = commit_exit_status_is_not_fatal [OF a r(3) h3(3) h4 h5(3) refl refl, unfolded k]
  have one: "(1::int) \<noteq> 0" by simp
  from first g1 one have "main world_nothing_to_commit example_argv = ([NothingToCommit], Returned)"
    by blast
  moreover from second g2 have "main world_clean_commit example_argv = ([Committed], Returned)"
    by blast
  moreover from third g3 have "main world_without_git example_argv = ([], Raised OSError)"
    by blast
  ultimately show ?thesis using a r c added g1 g2 g3 by simp
qed

text \<open>
  C6, as the claim has it, fails where \<open>git\<close> cannot be started: the topic of the example
  journal is added, then \<open>subprocess.run\<close> raises an \<open>OSError\<close> for \<open>git add\<close>, which the
  handler for \<open>CalledProcessError\<close> does not catch, and the run ends with that exception.
\<close>

theorem git_not_started_is_fatal:
  "add_topics world_without_git 0 [''rust basics''] = None
   \<and> main world_without_git example_argv = ([], Raised OSError)"
  by code_simp


end
